theory Spec2Isabelle
  imports Main
begin

section \<open>toys/posix/xargs.c: data model\<close>

text \<open>
  A C string is modelled by the list of its bytes before the terminating NUL, so the
  test \<^verbatim>\<open>!*s\<close> is the test for the empty list and \<^verbatim>\<open>strlen\<close> is \<^const>\<open>length\<close>.
  The counters of the source are \<^verbatim>\<open>long\<close>: they count bytes and entries of data
  held in memory and cannot wrap, so they are unbounded integers here.
\<close>

text \<open>\<^verbatim>\<open>isspace\<close> in the C locale: space, \<^verbatim>\<open>\t \n \v \f \r\<close>.\<close>

definition isspace :: "char \<Rightarrow> bool" where
  "isspace c = (c = CHR '' '' \<or> c = CHR 0x09 \<or> c = CHR 0x0A \<or> c = CHR 0x0B
                \<or> c = CHR 0x0C \<or> c = CHR 0x0D)"

text \<open>
  Lines 38-45: \<^verbatim>\<open>GLOBALS(long s, n; char *E; long entries, bytes; char delim; ...)\<close>.
  The option parser (\<^verbatim>\<open>n#<1\<close>, line 13) refuses \<^verbatim>\<open>-n\<close> below 1, so \<open>n\<close> is a
  natural number and 0 stands for the absent option; \<^verbatim>\<open>-s\<close> takes any \<^verbatim>\<open>long\<close>.
  \<open>E\<close> is \<open>None\<close> for the \<^verbatim>\<open>NULL\<close> pointer. \<open>ptr\<close> is \<^verbatim>\<open>sizeof(char *)\<close> of the
  platform.
\<close>

record TT =
  s :: int
  n :: nat
  E :: "string option"
  entries :: nat
  bytes :: int
  delim :: char
  ptr :: nat

text \<open>
  Lines 50-53, what \<^verbatim>\<open>handle_entries\<close> returns: \<^verbatim>\<open>NULL\<close> (need more data), a
  pointer to the data left over, \<^verbatim>\<open>(char * )1\<close> (limit hit, all data consumed),
  \<^verbatim>\<open>(char * )2\<close> (hit \<^verbatim>\<open>-E STR\<close>).
\<close>

datatype hresult = NeedMore | Leftover string | LimitAll | StopE

text \<open>
  The array \<^verbatim>\<open>out\<close> that \<^verbatim>\<open>xargs_main\<close> allocates: a slot is \<^verbatim>\<open>NULL\<close> (\<open>None\<close>)
  or points to a string. A write past the end of the array is recorded in \<open>oob\<close>.
  A slot written by \<^verbatim>\<open>entry[TT.entries] = save\<close> holds the token that starts at
  \<^verbatim>\<open>save\<close>: the filling pass overwrites the separator that follows it with NUL before
  it reads on.
\<close>

record outbuf =
  slots :: "string option list"
  oob :: bool

definition store :: "nat \<Rightarrow> string \<Rightarrow> outbuf \<Rightarrow> outbuf" where
  "store i tok ob =
     (if i < length (slots ob) then ob\<lparr>slots := (slots ob)[i := Some tok]\<rparr>
      else ob\<lparr>oob := True\<rparr>)"

text \<open>\<^verbatim>\<open>if (entry) entry[TT.entries] = save;\<close> where \<open>entry\<close> is \<^verbatim>\<open>out+off\<close> or \<^verbatim>\<open>NULL\<close>.\<close>

definition put_entry :: "nat option \<Rightarrow> nat \<Rightarrow> string \<Rightarrow> outbuf \<Rightarrow> outbuf" where
  "put_entry entry i tok ob =
     (case entry of None \<Rightarrow> ob | Some off \<Rightarrow> store (off + i) tok ob)"

section \<open>handle\_entries\<close>

text \<open>
  Lines 78-82, the inner loop of the whitespace branch, from \<^verbatim>\<open>save = s\<close>:
  \<^verbatim>\<open>for (;;) { if (++TT.bytes >= TT.s && TT.s) return save;
              if (!*s || isspace( *s)) break;  s++; }\<close>
  with \<open>lim\<close> for \<^verbatim>\<open>TT.s\<close>, \<open>b\<close> for \<^verbatim>\<open>TT.bytes\<close> and the text at \<open>s\<close>. The result
  is the new byte count and, unless the limit was hit (\<open>None\<close>), the token read and the
  text from the byte that ended it.
\<close>

fun scan :: "int \<Rightarrow> int \<Rightarrow> string \<Rightarrow> int \<times> (string \<times> string) option" where
  "scan lim b [] = (if b + 1 \<ge> lim \<and> lim \<noteq> 0 then (b + 1, None) else (b + 1, Some ([], [])))"
| "scan lim b (c # cs) =
     (if b + 1 \<ge> lim \<and> lim \<noteq> 0 then (b + 1, None)
      else if isspace c then (b + 1, Some ([], c # cs))
      else (case scan lim (b + 1) cs of
              (b', None) \<Rightarrow> (b', None)
            | (b', Some (tok, rest)) \<Rightarrow> (b', Some (c # tok, rest))))"

lemma scan_rest_length:
  "scan lim b cs = (b', Some (tok, rest)) \<Longrightarrow> length rest \<le> length cs"
  by (induction cs arbitrary: b b' tok rest)
     (auto split: if_splits prod.splits option.splits intro: le_SucI)

text \<open>
  Lines 58-90 and 101, the whitespace branch of \<^verbatim>\<open>handle_entries\<close>, one turn of
  \<^verbatim>\<open>while ( *s)\<close> per call: the loop test (line 61, and \<^verbatim>\<open>return NULL\<close> on line 101
  when it fails), the whitespace skipped (lines 64-67, \<open>s1\<close>), the entry ceiling
  (lines 69-70), the end of the line (line 72), the token scanned (lines 78-82), the
  stop string (lines 83-87), the token stored and counted (lines 88-89).
\<close>

function handle_ws :: "nat option \<Rightarrow> string \<Rightarrow> TT \<Rightarrow> outbuf \<Rightarrow> hresult \<times> TT \<times> outbuf" where
  "handle_ws entry str tt ob =
     (if str = [] then (NeedMore, tt, ob)
      else
        let s1 = dropWhile isspace str in
        if n tt \<noteq> 0 \<and> entries tt \<ge> n tt
        then ((if s1 \<noteq> [] then Leftover s1 else LimitAll), tt, ob)
        else if s1 = [] then (NeedMore, tt, ob)
        else
          let r = scan (s tt) (bytes tt) s1; tt1 = tt\<lparr>bytes := fst r\<rparr> in
          (case snd r of
             None \<Rightarrow> (Leftover s1, tt1, ob)
           | Some (tok, rest) \<Rightarrow>
               if E tt = Some tok then (StopE, tt1, ob)
               else handle_ws entry rest (tt1\<lparr>entries := entries tt + 1\<rparr>)
                      (put_entry entry (entries tt) tok ob)))"
  by pat_completeness auto
termination
proof (relation "measure (\<lambda>(entry, str, tt, ob). length str)", goal_cases)
  case 1
  show ?case by simp
next
  case (2 entry str tt ob s1 r tt1 x2 tok rest)
  from 2 have s1ne: "s1 \<noteq> []" and s1d: "dropWhile isspace str = s1"
    by simp_all
  from s1ne obtain c cs where s1: "s1 = c # cs"
    by (cases s1) simp_all
  from s1d s1 have "dropWhile isspace str = c # cs" by simp
  then have nsp: "\<not> isspace c"
    by (metis hd_dropWhile list.sel(1) list.distinct(1))
  from 2 have sc: "scan (s tt) (bytes tt) s1 = (fst r, Some (tok, rest))"
    by (simp add: prod_eq_iff)
  from sc s1 nsp obtain b2 tok2 where
    "scan (s tt) (bytes tt + 1) cs = (b2, Some (tok2, rest))"
    by (auto split: if_splits prod.splits option.splits)
  then have "length rest \<le> length cs" by (rule scan_rest_length)
  moreover have "length s1 \<le> length str"
    using 2 by (simp add: length_dropWhile_le)
  ultimately show ?case using s1 by simp
qed

declare handle_ws.simps [simp del]

text \<open>
  Lines 94-98, the \<^verbatim>\<open>-0\<close> branch: the whole line is one entry. Line 57 chooses the
  branch.
\<close>

definition handle_null :: "nat option \<Rightarrow> string \<Rightarrow> TT \<Rightarrow> outbuf \<Rightarrow> hresult \<times> TT \<times> outbuf" where
  "handle_null entry data tt ob =
     (let tt1 = tt\<lparr>bytes := bytes tt + int (ptr tt) + int (length data) + 1\<rparr> in
      if s tt1 \<noteq> 0 \<and> bytes tt1 \<ge> s tt1 then (Leftover data, tt1, ob)
      else if n tt1 \<noteq> 0 \<and> entries tt1 \<ge> n tt1 then (Leftover data, tt1, ob)
      else (NeedMore, tt1\<lparr>entries := entries tt1 + 1\<rparr>,
            put_entry entry (entries tt1) data ob))"

definition handle_entries :: "nat option \<Rightarrow> string \<Rightarrow> TT \<Rightarrow> outbuf \<Rightarrow> hresult \<times> TT \<times> outbuf" where
  "handle_entries entry data tt ob =
     (if delim tt \<noteq> CHR 0x00 then handle_ws entry data tt ob
      else handle_null entry data tt ob)"

section \<open>xargs\_main\<close>

text \<open>
  Standard input is the list of the bytes not yet read. \<^verbatim>\<open>getdelim\<close> (line 145)
  returns -1 (\<open>None\<close>) at end of input, else the bytes up to and including the first
  delimiter, or all of them when there is none, and the input that remains. \<open>cstr\<close>
  is the C string the buffer holds: the bytes before the first NUL.
\<close>

definition getdelim :: "char \<Rightarrow> string \<Rightarrow> (string \<times> string) option" where
  "getdelim d inp =
     (if inp = [] then None
      else (case dropWhile (\<lambda>c. c \<noteq> d) inp of
              [] \<Rightarrow> Some (inp, [])
            | c # rest \<Rightarrow> Some (takeWhile (\<lambda>c. c \<noteq> d) inp @ [c], rest)))"

definition cstr :: "string \<Rightarrow> string" where
  "cstr buf = takeWhile (\<lambda>c. c \<noteq> CHR 0x00) buf"

lemma getdelim_shorter: "getdelim d inp = Some (line, rest) \<Longrightarrow> length rest < length inp"
proof -
  have "length (dropWhile (\<lambda>c. c \<noteq> d) inp) \<le> length inp"
    by (rule length_dropWhile_le)
  moreover assume "getdelim d inp = Some (line, rest)"
  ultimately show ?thesis
    by (cases inp) (auto simp: getdelim_def split: if_splits list.splits)
qed

text \<open>
  Lines 143-152, the line the reading loop works on: the data left over from the last
  batch if there is any, else the next line of standard input.
\<close>

definition next_data :: "char \<Rightarrow> string option \<Rightarrow> string \<Rightarrow> (string \<times> string) option" where
  "next_data d data inp =
     (case data of
        Some l \<Rightarrow> Some (l, inp)
      | None \<Rightarrow> (case getdelim d inp of
                   None \<Rightarrow> None
                 | Some (line, rest) \<Rightarrow> Some (cstr line, rest)))"

definition no_out :: outbuf where
  "no_out = \<lparr>slots = [], oob = False\<rparr>"

text \<open>
  Lines 140-163, the loop \<^verbatim>\<open>for (;;)\<close> that reads input and counts the data used
  (\<^verbatim>\<open>handle_entries(data, NULL)\<close>). It works on \<^verbatim>\<open>TT\<close>, \<^verbatim>\<open>data\<close>, \<^verbatim>\<open>dlist\<close>,
  standard input and \<^verbatim>\<open>done\<close>, and returns them as they are at its \<^verbatim>\<open>break\<close>: at
  end of input (lines 147-151), or with what \<^verbatim>\<open>handle_entries\<close> returned turned into
  the next \<^verbatim>\<open>data\<close> (lines 157-160).
\<close>

function read_lines ::
  "TT \<Rightarrow> string option \<Rightarrow> string list \<Rightarrow> string \<Rightarrow> nat
     \<Rightarrow> TT \<times> string option \<times> string list \<times> string \<times> nat" where
  "read_lines tt data dlist inp dn =
     (case next_data (delim tt) data inp of
        None \<Rightarrow> (tt, None, dlist, inp, dn + 1)
      | Some (d, inp1) \<Rightarrow>
          let r = handle_entries None d tt no_out; tt1 = fst (snd r) in
          (case fst r of
             NeedMore \<Rightarrow> read_lines tt1 None (dlist @ [d]) inp1 dn
           | StopE \<Rightarrow> (tt1, None, dlist @ [d], inp1, dn + 1)
           | LimitAll \<Rightarrow> (tt1, None, dlist @ [d], inp1, dn)
           | Leftover l \<Rightarrow> (tt1, Some l, dlist @ [d], inp1, dn)))"
  by pat_completeness auto
termination
proof (relation "measure (\<lambda>(tt, data, dlist, inp, dn).
          2 * length inp + (case data of None \<Rightarrow> 0 | Some _ \<Rightarrow> 1))", goal_cases)
  case 1
  show ?case by simp
next
  case (2 tt data dlist inp dn x2 d inp1 r tt1)
  then show ?case
    by (cases data)
       (auto simp: next_data_def split: option.splits prod.splits dest: getdelim_shorter)
qed

declare read_lines.simps [simp del]

text \<open>
  Lines 176-178, the filling pass over the lines of \<^verbatim>\<open>dlist\<close>, \<open>off\<close> being
  \<^verbatim>\<open>entries\<close>, the length of the command:
  \<^verbatim>\<open>for (dtemp = dlist; dtemp; dtemp = dtemp->next) handle_entries(dtemp->data, out+entries);\<close>
\<close>

fun fill :: "nat \<Rightarrow> string list \<Rightarrow> TT \<Rightarrow> outbuf \<Rightarrow> TT \<times> outbuf" where
  "fill off [] tt ob = (tt, ob)"
| "fill off (d # ds) tt ob =
     (let r = handle_entries (Some off) d tt ob in fill off ds (fst (snd r)) (snd (snd r)))"

text \<open>
  Reading \<^verbatim>\<open>out\<close> up to its first \<^verbatim>\<open>NULL\<close>, as \<^verbatim>\<open>xexec\<close> (line 196) and the trace
  loop \<^verbatim>\<open>for (i = 0; out[i]; ++i)\<close> (line 183) do; \<open>None\<close> when the array holds no
  \<^verbatim>\<open>NULL\<close> and the read runs past its end.
\<close>

fun read_argv :: "string option list \<Rightarrow> string list option" where
  "read_argv [] = None"
| "read_argv (None # xs) = Some []"
| "read_argv (Some a # xs) = (case read_argv xs of None \<Rightarrow> None | Some as \<Rightarrow> Some (a # as))"

text \<open>
  The status \<^verbatim>\<open>waitpid\<close> stores (line 198), a normal exit with its code or the end by
  a signal with its number, and its decoding on line 199:
  \<^verbatim>\<open>status = WIFEXITED(status) ? WEXITSTATUS(status) : WTERMSIG(status)+127;\<close>
\<close>

datatype wstatus = Exited nat | Signaled nat

fun WIFEXITED :: "wstatus \<Rightarrow> bool" where
  "WIFEXITED (Exited c) = True"
| "WIFEXITED (Signaled g) = False"

fun WEXITSTATUS :: "wstatus \<Rightarrow> int" where
  "WEXITSTATUS (Exited c) = int c"
| "WEXITSTATUS (Signaled g) = 0"

fun WTERMSIG :: "wstatus \<Rightarrow> int" where
  "WTERMSIG (Exited c) = 0"
| "WTERMSIG (Signaled g) = int g"

definition decode_status :: "wstatus \<Rightarrow> int" where
  "decode_status st = (if WIFEXITED st then WEXITSTATUS st else WTERMSIG st + 127)"

text \<open>
  The options (line 13) and the host values \<^verbatim>\<open>xargs_main\<close> reads. \<open>opt_s\<close> and
  \<open>opt_n\<close> are 0 and \<open>opt_E\<close> is \<open>None\<close> when the option is absent.
  \<open>posix_max_bytes\<close> is the value of
  \<^verbatim>\<open>sysconf(_SC_ARG_MAX) - environ_bytes() - 2048\<close> (line 117), called the host ceiling
  below. The flags \<^verbatim>\<open>-t\<close> and \<^verbatim>\<open>-o\<close> only add a trace line and choose the child's
  standard input; they are left out.
\<close>

record config =
  opt_s :: int
  opt_n :: nat
  opt_E :: "string option"
  flag_0 :: bool
  flag_r :: bool
  flag_p :: bool
  optargs :: "string list"
  posix_max_bytes :: int
  sizeof_ptr :: nat

text \<open>
  What the program cannot decide: the status of the child run for batch \<open>k\<close> with a
  given argument vector, and the answer \<^verbatim>\<open>fyesno\<close> reads from the terminal for it.
\<close>

record world =
  child :: "nat \<Rightarrow> string list \<Rightarrow> wstatus"
  yesno :: "nat \<Rightarrow> bool"

text \<open>
  A run is observed as the list of its batches, each with the argument vector built
  for it: \<open>Ran\<close> with the decoded status when the command was run, \<open>Declined\<close> when
  the answer to \<^verbatim>\<open>-p\<close> was no. It ends normally (\<open>Finished\<close>), in
  \<^verbatim>\<open>error_exit\<close> (\<open>Fatal\<close>), in a write or read outside \<^verbatim>\<open>out\<close> (\<open>Undefined\<close>), or
  it is still running when the steps allowed to it are used up (\<open>Running\<close>).
\<close>

datatype event = Ran "string list" int | Declined "string list"

datatype outcome = Finished | Fatal string | Undefined | Running

text \<open>
  Lines 129-130, the bytes of the command, 4 for \<^verbatim>\<open>echo\<close>:
  \<^verbatim>\<open>for (entries = 0, bytes = -1; entries < toys.optc; entries++, bytes++)
    bytes += strlen(toys.optargs[entries]);\<close>
\<close>

definition prefix_bytes :: "string list \<Rightarrow> int" where
  "prefix_bytes args = foldl (\<lambda>b a. b + int (length a) + 1) (- 1) args"

text \<open>
  Lines 133-211, the loop \<^verbatim>\<open>while (data || !done)\<close>, one turn per unit of fuel: the
  counters reset (lines 136-137), the reading loop, \<^verbatim>\<open>continue\<close> under \<^verbatim>\<open>-r\<close>
  (line 165), \<^verbatim>\<open>error_exit\<close> (line 169), \<^verbatim>\<open>out\<close> allocated with the command in
  front (lines 170-173), the filling pass with the counters reset again (lines 174-178),
  the prompt (lines 184-187), the child and its status (lines 191-199), and the next
  turn with \<^verbatim>\<open>dlist\<close> freed (lines 203-209). \<open>k\<close> counts the batches that reached the
  command line so far. \<^verbatim>\<open>continue\<close> under \<^verbatim>\<open>-r\<close> skips the code that frees
  \<^verbatim>\<open>dlist\<close>, so the list is kept for the next turn.
\<close>

fun xargs_loop ::
  "nat \<Rightarrow> config \<Rightarrow> world \<Rightarrow> string list \<Rightarrow> TT \<Rightarrow> nat \<Rightarrow> string option \<Rightarrow> nat
     \<Rightarrow> string list \<Rightarrow> string \<Rightarrow> outcome \<times> event list" where
  "xargs_loop 0 cfg w args tt k data dn dlist inp = (Running, [])"
| "xargs_loop (Suc fuel) cfg w args tt k data dn dlist inp =
     (if data = None \<and> dn \<noteq> 0 then (Finished, [])
      else
        (case read_lines (tt\<lparr>entries := 0, bytes := prefix_bytes args\<rparr>) data dlist inp dn of
           (tt1, data1, dlist1, inp1, dn1) \<Rightarrow>
             if entries tt1 = 0 \<and> flag_r cfg
             then xargs_loop fuel cfg w args tt1 k data1 dn1 dlist1 inp1
             else if data1 \<noteq> None \<and> entries tt1 = 0 then (Fatal ''argument too long'', [])
             else
               (case fill (length args) dlist1 (tt1\<lparr>entries := 0, bytes := prefix_bytes args\<rparr>)
                       \<lparr>slots = map Some args @ replicate (entries tt1 + 1) None, oob = False\<rparr> of
                  (tt2, out) \<Rightarrow>
                    if oob out then (Undefined, [])
                    else
                      (case read_argv (slots out) of
                         None \<Rightarrow> (Undefined, [])
                       | Some argv \<Rightarrow>
                           let doit = (if flag_p cfg then yesno w k else True);
                               ev = (if doit then Ran argv (decode_status (child w k argv))
                                     else Declined argv);
                               r = xargs_loop fuel cfg w args tt2 (k + 1) data1 dn1 [] inp1
                           in (fst r, ev # snd r)))))"

text \<open>
  The start of \<^verbatim>\<open>xargs_main\<close>: the byte limit (line 118), the delimiter (line 120),
  the default command (lines 123-127).
\<close>

definition xargs_main :: "nat \<Rightarrow> config \<Rightarrow> world \<Rightarrow> string \<Rightarrow> outcome \<times> event list" where
  "xargs_main fuel cfg w inp =
     (let tt = \<lparr>s = (if opt_s cfg = 0 \<or> opt_s cfg > posix_max_bytes cfg
                     then posix_max_bytes cfg else opt_s cfg),
                n = opt_n cfg, E = opt_E cfg, entries = 0, bytes = 0,
                delim = (if \<not> flag_0 cfg then CHR 0x0A else CHR 0x00),
                ptr = sizeof_ptr cfg\<rparr>;
          args = (if optargs cfg = [] then [''echo''] else optargs cfg)
      in xargs_loop fuel cfg w args tt 0 None 0 [] inp)"

section \<open>Tokens, budgets and batches\<close>

text \<open>
  The definitions of this section are not code of the program. The first part names
  what the claims speak of: the tokens of the input, the byte budget, the tokens of a
  batch. The second part holds the invariants of the proofs, which describe a run by
  the tokens of its input; the lemmas of the next section prove that the code computes
  them.
\<close>

subsection \<open>The words of the claims\<close>

text \<open>
  The whitespace-separated words of a text: skip whitespace, take the longest run of
  other bytes, go on behind it.
\<close>

function ws_words :: "string \<Rightarrow> string list" where
  "ws_words str =
     (let s1 = dropWhile isspace str in
      if s1 = [] then []
      else takeWhile (\<lambda>c. \<not> isspace c) s1 # ws_words (dropWhile (\<lambda>c. \<not> isspace c) s1))"
  by pat_completeness auto
termination
proof (relation "measure length", goal_cases)
  case 1
  show ?case by simp
next
  case (2 str s1)
  from 2 have "s1 \<noteq> []" by simp
  then obtain c cs where s1: "s1 = c # cs"
    by (cases s1) simp_all
  from 2 s1 have "dropWhile isspace str = c # cs" by simp
  then have nsp: "\<not> isspace c"
    by (metis hd_dropWhile list.sel(1) list.distinct(1))
  have "length (dropWhile (\<lambda>c. \<not> isspace c) cs) \<le> length cs"
    by (rule length_dropWhile_le)
  moreover have "length s1 \<le> length str"
    using 2 by (simp add: length_dropWhile_le)
  ultimately show ?case using s1 nsp by simp
qed

declare ws_words.simps [simp del]

text \<open>
  The tokens one line holds: its words in whitespace mode (the delimiter \<open>d\<close> is
  not NUL), the line itself with \<^verbatim>\<open>-0\<close>.
\<close>

definition toks :: "char \<Rightarrow> string \<Rightarrow> string list" where
  "toks d str = (if d \<noteq> CHR 0x00 then ws_words str else [str])"

text \<open>
  The tokens of standard input: the tokens of its lines, each line as \<^verbatim>\<open>getdelim\<close>
  cuts it and as the C string \<^verbatim>\<open>handle_entries\<close> reads.
\<close>

function stream_toks :: "char \<Rightarrow> string \<Rightarrow> string list" where
  "stream_toks d inp =
     (case getdelim d inp of
        None \<Rightarrow> []
      | Some (line, rest) \<Rightarrow> toks d (cstr line) @ stream_toks d rest)"
  by pat_completeness auto
termination
  by (relation "measure (\<lambda>(d, inp). length inp)") (auto dest: getdelim_shorter)

declare stream_toks.simps [simp del]

text \<open>
  The tokens still to come at a point of the run: those of the text left over in
  \<^verbatim>\<open>data\<close>, if there is any, and those of the input not yet read.
\<close>

definition pending :: "char \<Rightarrow> string option \<Rightarrow> string \<Rightarrow> string list" where
  "pending d data inp = (case data of None \<Rightarrow> [] | Some l \<Rightarrow> toks d l) @ stream_toks d inp"

text \<open>
  The command line without collected tokens (\<^verbatim>\<open>echo\<close> when none is given, lines
  123-127), the byte budget in force (line 118: the host ceiling, or a smaller
  \<^verbatim>\<open>-s\<close>; 0 is no budget), and \<^verbatim>\<open>TT\<close> as each batch starts (lines 136-137).
\<close>

definition command :: "config \<Rightarrow> string list" where
  "command cfg = (if optargs cfg = [] then [''echo''] else optargs cfg)"

definition byte_limit :: "config \<Rightarrow> int" where
  "byte_limit cfg =
     (if opt_s cfg = 0 \<or> opt_s cfg > posix_max_bytes cfg then posix_max_bytes cfg else opt_s cfg)"

definition limits :: "config \<Rightarrow> TT" where
  "limits cfg =
     \<lparr>s = byte_limit cfg, n = opt_n cfg, E = opt_E cfg, entries = 0,
      bytes = prefix_bytes (command cfg),
      delim = (if \<not> flag_0 cfg then CHR 0x0A else CHR 0x00), ptr = sizeof_ptr cfg\<rparr>"

text \<open>
  The bytes \<^verbatim>\<open>handle_entries\<close> adds to \<^verbatim>\<open>TT.bytes\<close> for an accepted token: its
  length and one for the byte that ends it (line 79), and with \<^verbatim>\<open>-0\<close> the pointer
  width as well (line 94).
\<close>

definition cost :: "TT \<Rightarrow> string \<Rightarrow> int" where
  "cost tt w = (if delim tt \<noteq> CHR 0x00 then int (length w) + 1
                else int (ptr tt) + int (length w) + 1)"

text \<open>
  The tokens of the whole input in the mode of the configuration.
\<close>

definition input_tokens :: "config \<Rightarrow> string \<Rightarrow> string list" where
  "input_tokens cfg inp = stream_toks (delim (limits cfg)) inp"

text \<open>
  The argument vector of an event, whether its command was run, and the tokens the
  event passed to the command: its argument vector behind the command.
\<close>

fun argv_of :: "event \<Rightarrow> string list" where
  "argv_of (Ran a st) = a"
| "argv_of (Declined a) = a"

fun ran :: "event \<Rightarrow> bool" where
  "ran (Ran a st) = True"
| "ran (Declined a) = False"

definition batch_tokens :: "config \<Rightarrow> event \<Rightarrow> string list" where
  "batch_tokens cfg ev = drop (length (command cfg)) (argv_of ev)"

text \<open>
  A token fits an empty batch: counted after the command, it stays below the byte
  budget (lines 79 and 95).
\<close>

definition fits :: "config \<Rightarrow> string \<Rightarrow> bool" where
  "fits cfg x = (byte_limit cfg = 0 \<or> prefix_bytes (command cfg) + cost (limits cfg) x < byte_limit cfg)"

text \<open>
  A configuration and a world for the examples: no option set, a host ceiling of
  131072 bytes, pointers of 8 bytes, a command that exits with 0, every prompt
  answered yes.
\<close>

definition ex_cfg :: config where
  "ex_cfg = \<lparr>opt_s = 0, opt_n = 0, opt_E = None, flag_0 = False, flag_r = False,
             flag_p = False, optargs = [], posix_max_bytes = 131072, sizeof_ptr = 8\<rparr>"

definition ex_world :: world where
  "ex_world = \<lparr>child = (\<lambda>k a. Exited 0), yesno = (\<lambda>k. True)\<rparr>"

subsection \<open>The invariants of the proofs\<close>

text \<open>
  The three tests that end a batch before a token: the entry ceiling, the byte
  budget, the stop string.
\<close>

definition rej_n :: "TT \<Rightarrow> bool" where
  "rej_n tt = (n tt \<noteq> 0 \<and> entries tt \<ge> n tt)"

definition rej_b :: "TT \<Rightarrow> string \<Rightarrow> bool" where
  "rej_b tt w = (s tt \<noteq> 0 \<and> bytes tt + cost tt w \<ge> s tt)"

definition rej_E :: "TT \<Rightarrow> string \<Rightarrow> bool" where
  "rej_E tt w = (delim tt \<noteq> CHR 0x00 \<and> E tt = Some w)"

text \<open>
  The counters after one accepted token, and after a list of them.
\<close>

definition step :: "TT \<Rightarrow> string \<Rightarrow> TT" where
  "step tt w = tt\<lparr>entries := entries tt + 1, bytes := bytes tt + cost tt w\<rparr>"

fun adv :: "TT \<Rightarrow> string list \<Rightarrow> TT" where
  "adv tt [] = tt"
| "adv tt (w # ws) = adv (step tt w) ws"

text \<open>
  The tokens of a token list that one batch takes: those before the first one that a
  test rejects.
\<close>

fun accept :: "TT \<Rightarrow> string list \<Rightarrow> string list" where
  "accept tt [] = []"
| "accept tt (w # ws) =
     (if rej_n tt \<or> rej_b tt w \<or> rej_E tt w then [] else w # accept (step tt w) ws)"

text \<open>
  The writes \<^verbatim>\<open>entry[TT.entries] = save\<close> for a list of tokens, from index \<open>i\<close> on.
\<close>

fun puts :: "nat option \<Rightarrow> nat \<Rightarrow> string list \<Rightarrow> outbuf \<Rightarrow> outbuf" where
  "puts entry i [] ob = ob"
| "puts entry i (w # ws) ob = puts entry (i + 1) ws (put_entry entry i w ob)"

text \<open>
  Two states of \<^verbatim>\<open>TT\<close> with the same options, which may differ in the counters; and
  a later state of the same batch: same options, no fewer bytes.
\<close>

definition same_opts :: "TT \<Rightarrow> TT \<Rightarrow> bool" where
  "same_opts tt tt' =
     (s tt' = s tt \<and> n tt' = n tt \<and> E tt' = E tt \<and> delim tt' = delim tt \<and> ptr tt' = ptr tt)"

definition below :: "TT \<Rightarrow> TT \<Rightarrow> bool" where
  "below t0 tt = (same_opts t0 tt \<and> bytes t0 \<le> bytes tt)"

text \<open>
  What one call of \<^verbatim>\<open>handle_entries\<close> on a line with the tokens \<open>W\<close> returns, said
  with \<open>accept\<close>.
\<close>

definition line_ok :: "TT \<Rightarrow> string list \<Rightarrow> hresult \<Rightarrow> TT \<Rightarrow> bool" where
  "line_ok tt W r tt' =
     (let acc = accept tt W; tta = adv tt acc in
      same_opts tt tt' \<and> entries tt' = entries tta \<and>
      (case r of
         NeedMore \<Rightarrow> acc = W \<and> tt' = tta
       | LimitAll \<Rightarrow> acc = W \<and> rej_n tta
       | Leftover l \<Rightarrow> length acc < length W \<and> toks (delim tt) l = drop (length acc) W
                        \<and> (rej_n tta \<or> rej_b tta (W ! length acc))
       | StopE \<Rightarrow> length acc < length W \<and> \<not> rej_n tta \<and> \<not> rej_b tta (W ! length acc)
                        \<and> rej_E tta (W ! length acc)))"

text \<open>
  What the counting pass and the filling pass share: the result and the counters.
\<close>

definition counted :: "hresult \<times> TT \<times> outbuf \<Rightarrow> hresult \<times> TT" where
  "counted x = (fst x, fst (snd x))"

text \<open>
  What the reading loop returns when the tokens to come are \<open>R\<close>: it stops at end of
  input, at the entry ceiling with the line used up, with text left over, or at the
  stop string.
\<close>

definition read_ok ::
  "TT \<Rightarrow> string list \<Rightarrow> nat \<Rightarrow> TT \<Rightarrow> string option \<Rightarrow> string \<Rightarrow> nat \<Rightarrow> bool" where
  "read_ok tt R dn tt1 data1 inp1 dn1 =
     (let acc = accept tt R; tta = adv tt acc; d = delim tt in
      same_opts tt tt1 \<and> entries tt1 = entries tta \<and>
      ((data1 = None \<and> dn1 = dn + 1 \<and> inp1 = [] \<and> acc = R)
       \<or> (data1 = None \<and> dn1 = dn \<and> rej_n tta \<and> pending d None inp1 = drop (length acc) R)
       \<or> (\<exists>l. data1 = Some l \<and> dn1 = dn \<and> length acc < length R \<and> toks d l \<noteq> []
              \<and> pending d (Some l) inp1 = drop (length acc) R
              \<and> (rej_n tta \<or> rej_b tta (R ! length acc)))
       \<or> (data1 = None \<and> dn1 = dn + 1 \<and> length acc < length R \<and> \<not> rej_n tta
              \<and> \<not> rej_b tta (R ! length acc) \<and> rej_E tta (R ! length acc))))"

text \<open>
  \<^verbatim>\<open>TT.entries = 0; TT.bytes = bytes;\<close> and the event a batch leaves in the trace.
\<close>

definition reset :: "string list \<Rightarrow> TT \<Rightarrow> TT" where
  "reset args tt = tt\<lparr>entries := 0, bytes := prefix_bytes args\<rparr>"

definition event :: "config \<Rightarrow> world \<Rightarrow> nat \<Rightarrow> string list \<Rightarrow> event" where
  "event cfg w k argv =
     (if flag_p cfg \<and> \<not> yesno w k then Declined argv
      else Ran argv (decode_status (child w k argv)))"

text \<open>
  The state after \<^verbatim>\<open>continue\<close> under \<^verbatim>\<open>-r\<close>, the only one in which \<^verbatim>\<open>dlist\<close>
  is not empty at the head of the loop: the loop is over, or the first token to come
  does not fit the byte budget of an empty batch.
\<close>

definition stuck :: "config \<Rightarrow> TT \<Rightarrow> string option \<Rightarrow> nat \<Rightarrow> bool" where
  "stuck cfg t0 data dn =
     (flag_r cfg \<and>
      ((data = None \<and> dn \<noteq> 0)
       \<or> (\<exists>l. data = Some l \<and> toks (delim t0) l \<noteq> [] \<and> rej_b t0 (hd (toks (delim t0) l)))))"

text \<open>
  The batches of a token list: each takes what \<open>accept\<close> takes from the tokens
  that remain, up to the first token that no batch can take.
\<close>

function chunks :: "TT \<Rightarrow> string list \<Rightarrow> string list list" where
  "chunks t0 R =
     (if accept t0 R = [] then []
      else accept t0 R # chunks t0 (drop (length (accept t0 R)) R))"
  by pat_completeness auto
termination
proof (relation "measure (\<lambda>(t0, R). length R)", goal_cases)
  case 1
  show ?case by simp
next
  case (2 t0 R)
  then have "R \<noteq> []" by (cases R) simp_all
  with 2 show ?case by simp
qed

declare chunks.simps [simp del]

text \<open>
  The events of a list of batches, numbered from \<open>k\<close>.
\<close>

fun events_of :: "config \<Rightarrow> world \<Rightarrow> string list \<Rightarrow> nat \<Rightarrow> string list list \<Rightarrow> event list" where
  "events_of cfg w args k [] = []"
| "events_of cfg w args k (b # bs) = event cfg w k (args @ b) # events_of cfg w args (k + 1) bs"

text \<open>
  How a run over the tokens \<open>R\<close> ends: normally when the batches used them all,
  with one more batch of no tokens (\<open>tr\<close>) when the last line was used up at the entry
  ceiling or there was no token at all; in \<^verbatim>\<open>error_exit\<close> otherwise.
\<close>

definition run_ok :: "config \<Rightarrow> TT \<Rightarrow> string list \<Rightarrow> outcome \<Rightarrow> string list list \<Rightarrow> bool" where
  "run_ok cfg t0 R oc tr =
     (if concat (chunks t0 R) = R
      then oc = Finished
           \<and> (tr = [] \<or> (tr = [[]] \<and> \<not> flag_r cfg
                           \<and> (R = [] \<or> rej_n (adv t0 (last (chunks t0 R))))))
      else oc = Fatal ''argument too long'' \<and> tr = [])"

section \<open>The code computes the token view\<close>

text \<open>
  The lemmas that carry the claims are \<open>handle_entries_spec\<close>, \<open>read_lines_spec\<close>,
  \<open>fill_after_read\<close>, \<open>loop_safe\<close>, \<open>loop_live\<close>, \<open>main_live\<close> and \<open>main_fuel\<close>;
  the others prepare them.
\<close>

subsection \<open>One call of handle\_entries\<close>

text \<open>
  \<open>handle_entries_spec\<close>: a call on a line takes the tokens that \<open>accept\<close> takes
  from the tokens of the line, writes them when it is given an array, and returns what
  \<open>line_ok\<close> says. \<open>handle_entries_counted\<close>: with or without an array, the result
  and the counters are the same.
\<close>

lemma ws_words_Nil [simp]: "ws_words [] = []"
  by (simp add: ws_words.simps)

lemma ws_words_space: "isspace c \<Longrightarrow> ws_words (c # cs) = ws_words cs"
  by (subst ws_words.simps, subst (2) ws_words.simps) simp

lemma ws_words_dropWhile: "ws_words (dropWhile isspace str) = ws_words str"
  by (induction str) (simp_all add: ws_words_space del: ws_words.simps)

lemma ws_words_token:
  "\<not> isspace c \<Longrightarrow> ws_words (c # cs)
     = takeWhile (\<lambda>c. \<not> isspace c) (c # cs) # ws_words (dropWhile (\<lambda>c. \<not> isspace c) (c # cs))"
  by (subst ws_words.simps) simp

lemma scan_eq:
  "scan lim b cs =
     (if lim \<noteq> 0 \<and> lim \<le> b + int (length (takeWhile (\<lambda>c. \<not> isspace c) cs)) + 1
      then (max (b + 1) lim, None)
      else (b + int (length (takeWhile (\<lambda>c. \<not> isspace c) cs)) + 1,
            Some (takeWhile (\<lambda>c. \<not> isspace c) cs, dropWhile (\<lambda>c. \<not> isspace c) cs)))"
proof (induction cs arbitrary: b)
  case Nil
  show ?case by (simp add: max_def)
next
  case (Cons c cs)
  show ?case
  proof (cases "lim \<noteq> 0 \<and> lim \<le> b + 1")
    case True
    then show ?thesis by (simp add: max_def)
  next
    case False
    show ?thesis
    proof (cases "isspace c")
      case True
      with False show ?thesis by auto
    next
      case nsp: False
      have "scan lim b (c # cs) =
              (case scan lim (b + 1) cs of
                 (b', None) \<Rightarrow> (b', None)
               | (b', Some (tok, rest)) \<Rightarrow> (b', Some (c # tok, rest)))"
        using False nsp by auto
      also have "\<dots> = (if lim \<noteq> 0 \<and> lim \<le> b + int (length (takeWhile (\<lambda>c. \<not> isspace c) (c # cs))) + 1
         then (max (b + 1) lim, None)
         else (b + int (length (takeWhile (\<lambda>c. \<not> isspace c) (c # cs))) + 1,
            Some (takeWhile (\<lambda>c. \<not> isspace c) (c # cs), dropWhile (\<lambda>c. \<not> isspace c) (c # cs))))"
        using False nsp by (auto simp: Cons.IH max_def)
      finally show ?thesis .
    qed
  qed
qed

lemma accept_rej_n: "rej_n tt \<Longrightarrow> accept tt W = []"
  by (cases W) simp_all

lemma same_opts_step: "same_opts (step tt w) tt' = same_opts tt tt'"
  by (simp add: same_opts_def step_def)

lemma line_ok_step:
  assumes ok: "line_ok (step tt w) W r tt'"
    and acc: "\<not> rej_n tt" "\<not> rej_b tt w" "\<not> rej_E tt w"
  shows "line_ok tt (w # W) r tt'"
proof -
  have d: "delim (step tt w) = delim tt" by (simp add: step_def)
  show ?thesis
    using ok acc
    by (cases r) (auto simp: line_ok_def Let_def d same_opts_step)
qed

lemma ws_words_ne: "str \<noteq> [] \<Longrightarrow> \<not> isspace (hd str) \<Longrightarrow> ws_words str \<noteq> []"
  by (cases str) (simp_all add: ws_words_token)

lemma handle_ws_spec:
  "delim tt \<noteq> CHR 0x00 \<Longrightarrow>
   \<exists>r tt'. handle_ws entry str tt ob
             = (r, tt', puts entry (entries tt) (accept tt (ws_words str)) ob)
           \<and> line_ok tt (ws_words str) r tt'"
proof (induction entry str tt ob rule: handle_ws.induct)
  case (1 entry str tt ob)
  define s1 where "s1 = dropWhile isspace str"
  have W: "ws_words str = ws_words s1"
    by (simp add: s1_def ws_words_dropWhile)
  show ?case
  proof (cases "str = []")
    case True
    then show ?thesis
      by (subst handle_ws.simps) (simp add: line_ok_def same_opts_def)
  next
    case ne: False
    show ?thesis
    proof (cases "rej_n tt")
      case True
      then have acc: "accept tt (ws_words str) = []" by (rule accept_rej_n)
      show ?thesis
      proof (cases "s1 = []")
        case True
        with ne \<open>rej_n tt\<close> show ?thesis
          by (subst handle_ws.simps)
             (simp add: W acc line_ok_def same_opts_def Let_def s1_def [symmetric] rej_n_def)
      next
        case False
        then have "\<not> isspace (hd s1)"
          unfolding s1_def by (rule hd_dropWhile)
        with False have "ws_words s1 \<noteq> []" by (simp add: ws_words_ne)
        with ne \<open>rej_n tt\<close> False 1(2) show ?thesis
          by (subst handle_ws.simps)
             (simp add: W acc accept_rej_n line_ok_def same_opts_def Let_def s1_def [symmetric]
                rej_n_def toks_def)
      qed
    next
      case nrej: False
      show ?thesis
      proof (cases "s1 = []")
        case True
        with ne nrej show ?thesis
          by (subst handle_ws.simps)
             (simp add: W line_ok_def same_opts_def Let_def s1_def [symmetric] rej_n_def)
      next
        case False
        then obtain c cs where s1: "s1 = c # cs" by (cases s1) simp_all
        from False have "\<not> isspace (hd s1)"
          unfolding s1_def by (rule hd_dropWhile)
        with s1 have nsp: "\<not> isspace c" by simp
        define tok where "tok = takeWhile (\<lambda>c. \<not> isspace c) s1"
        define rest where "rest = dropWhile (\<lambda>c. \<not> isspace c) s1"
        have Ws: "ws_words s1 = tok # ws_words rest"
          using nsp by (simp add: s1 tok_def rest_def ws_words_token)
        have cst: "cost tt tok = int (length tok) + 1"
          using 1(2) by (simp add: cost_def)
        show ?thesis
        proof (cases "rej_b tt tok")
          case True
          then have sc: "snd (scan (s tt) (bytes tt) s1) = None"
            by (simp add: scan_eq tok_def [symmetric] rej_b_def cst)
          from True have acc: "accept tt (tok # ws_words rest) = []" by simp
          from ne nrej False sc True 1(2) show ?thesis
            by (subst handle_ws.simps)
               (simp add: W Ws acc line_ok_def same_opts_def Let_def s1_def [symmetric] rej_n_def
                  toks_def)
        next
          case nb: False
          then have sc: "scan (s tt) (bytes tt) s1 = (bytes tt + cost tt tok, Some (tok, rest))"
            by (auto simp: scan_eq tok_def [symmetric] rest_def [symmetric] rej_b_def cst)
          show ?thesis
          proof (cases "E tt = Some tok")
            case True
            with 1(2) have rE: "rej_E tt tok" by (simp add: rej_E_def)
            then have acc: "accept tt (tok # ws_words rest) = []" by simp
            from ne nrej False sc True rE nb show ?thesis
              by (subst handle_ws.simps)
                 (auto simp: W Ws acc line_ok_def same_opts_def Let_def s1_def [symmetric] rej_n_def)
          next
            case nE: False
            then have nrE: "\<not> rej_E tt tok" by (simp add: rej_E_def)
            have st: "tt\<lparr>bytes := bytes tt + cost tt tok, entries := Suc (entries tt)\<rparr>
                        = step tt tok"
              by (simp add: step_def)
            have hw: "handle_ws entry str tt ob
                      = handle_ws entry rest (step tt tok) (put_entry entry (entries tt) tok ob)"
              using ne nrej False sc nE
              by (subst handle_ws.simps)
                 (auto simp: Let_def s1_def [symmetric] rej_n_def st)
            have d2: "delim (step tt tok) \<noteq> CHR 0x00"
              using 1(2) by (simp add: step_def)
            have "\<exists>r tt'. handle_ws entry rest (step tt tok) (put_entry entry (entries tt) tok ob)
                    = (r, tt', puts entry (entries (step tt tok))
                                 (accept (step tt tok) (ws_words rest))
                                 (put_entry entry (entries tt) tok ob))
                  \<and> line_ok (step tt tok) (ws_words rest) r tt'"
              using "1.IH" [OF ne s1_def _ False refl refl sc [THEN arg_cong, of snd, simplified] _ nE]
                nrej d2 sc
              by (simp add: rej_n_def st)
            then obtain r tt' where
              h: "handle_ws entry rest (step tt tok) (put_entry entry (entries tt) tok ob)
                    = (r, tt', puts entry (entries (step tt tok))
                                 (accept (step tt tok) (ws_words rest))
                                 (put_entry entry (entries tt) tok ob))"
              and ok: "line_ok (step tt tok) (ws_words rest) r tt'"
              by blast
            have acc: "accept tt (tok # ws_words rest) = tok # accept (step tt tok) (ws_words rest)"
              using nrej nb nrE by simp
            have lk: "line_ok tt (tok # ws_words rest) r tt'"
              using ok nrej nb nrE by (rule line_ok_step)
            have "handle_ws entry str tt ob
                    = (r, tt', puts entry (entries tt) (accept tt (ws_words str)) ob)"
              unfolding hw W Ws acc using h by (simp add: step_def)
            moreover have "line_ok tt (ws_words str) r tt'"
              unfolding W Ws by (rule lk)
            ultimately show ?thesis by blast
          qed
        qed
      qed
    qed
  qed
qed

lemma handle_null_spec:
  "delim tt = CHR 0x00 \<Longrightarrow>
   \<exists>r tt'. handle_null entry d tt ob = (r, tt', puts entry (entries tt) (accept tt [d]) ob)
           \<and> line_ok tt [d] r tt'"
  by (auto simp: handle_null_def Let_def line_ok_def same_opts_def rej_n_def rej_b_def rej_E_def
        cost_def step_def toks_def)

lemma handle_entries_spec:
  "\<exists>r tt'. handle_entries entry d tt ob
             = (r, tt', puts entry (entries tt) (accept tt (toks (delim tt) d)) ob)
           \<and> line_ok tt (toks (delim tt) d) r tt'"
proof (cases "delim tt = CHR 0x00")
  case True
  then show ?thesis
    using handle_null_spec [of tt entry d ob] by (simp add: handle_entries_def toks_def)
next
  case False
  then show ?thesis
    using handle_ws_spec [of tt entry d ob] by (simp add: handle_entries_def toks_def)
qed

lemma put_entry_None [simp]: "put_entry None i tok ob = ob"
  by (simp add: put_entry_def)

lemma handle_ws_counted:
  "counted (handle_ws entry str tt ob) = counted (handle_ws None str tt ob0)"
proof (induction entry str tt ob rule: handle_ws.induct)
  case (1 entry str tt ob)
  show ?case
  proof (cases "str \<noteq> [] \<and> \<not> (n tt \<noteq> 0 \<and> entries tt \<ge> n tt) \<and> dropWhile isspace str \<noteq> []
                \<and> (\<exists>tok rest. snd (scan (s tt) (bytes tt) (dropWhile isspace str)) = Some (tok, rest)
                      \<and> E tt \<noteq> Some tok)")
    case True
    then obtain tok rest where
      sc: "snd (scan (s tt) (bytes tt) (dropWhile isspace str)) = Some (tok, rest)"
      and nE: "E tt \<noteq> Some tok" by blast
    have "counted (handle_ws entry rest
             (tt\<lparr>bytes := fst (scan (s tt) (bytes tt) (dropWhile isspace str)),
                 entries := entries tt + 1\<rparr>) (put_entry entry (entries tt) tok ob))
        = counted (handle_ws None rest
             (tt\<lparr>bytes := fst (scan (s tt) (bytes tt) (dropWhile isspace str)),
                 entries := entries tt + 1\<rparr>) ob0)"
      using "1.IH" [OF _ refl _ _ refl refl sc refl nE] True by simp
    then show ?thesis
      using True sc nE
      by (subst handle_ws.simps, subst (2) handle_ws.simps) (auto simp: Let_def)
  next
    case False
    then show ?thesis
      by (subst handle_ws.simps, subst (2) handle_ws.simps)
         (auto simp: Let_def counted_def split: option.splits)
  qed
qed

lemma handle_entries_counted:
  "counted (handle_entries entry d tt ob) = counted (handle_entries None d tt ob0)"
  by (simp add: handle_entries_def handle_ws_counted [of entry d tt ob ob0])
     (simp add: handle_null_def counted_def Let_def)

subsection \<open>The reading loop and the filling pass\<close>

text \<open>
  \<open>read_lines_spec\<close>: the reading loop takes the tokens that \<open>accept\<close> takes from
  the tokens to come and stops as \<open>read_ok\<close> says. \<open>fill_after_read\<close>: the filling
  pass that follows it returns the same counters and leaves the command, those tokens
  and \<^verbatim>\<open>NULL\<close> in the array, with no write outside it.
\<close>

lemma accept_append_full:
  "accept tt W = W \<Longrightarrow> accept tt (W @ R) = W @ accept (adv tt W) R"
  by (induction W arbitrary: tt) (auto split: if_splits)

lemma accept_append_short:
  "length (accept tt W) < length W \<Longrightarrow> accept tt (W @ R) = accept tt W"
  by (induction W arbitrary: tt) (auto split: if_splits)

lemma accept_prefix: "take (length (accept tt W)) W = accept tt W"
  by (induction W arbitrary: tt) auto

lemma length_accept: "length (accept tt W) \<le> length W"
  by (induction W arbitrary: tt) auto

lemma adv_append: "adv tt (a @ b) = adv (adv tt a) b"
  by (induction a arbitrary: tt) auto

lemma puts_append: "puts entry i (a @ b) ob = puts entry (i + length a) b (puts entry i a ob)"
  by (induction a arbitrary: i ob) auto

lemma entries_adv: "entries (adv tt ws) = entries tt + length ws"
  by (induction ws arbitrary: tt) (auto simp: step_def)

lemma same_opts_adv: "same_opts tt (adv tt ws)"
  by (induction ws arbitrary: tt) (auto simp: same_opts_def step_def)

lemma same_opts_refl: "same_opts tt tt"
  by (simp add: same_opts_def)

lemma same_opts_trans: "same_opts a b \<Longrightarrow> same_opts b c \<Longrightarrow> same_opts a c"
  by (simp add: same_opts_def)

lemma puts_None [simp]: "puts None i ws ob = ob"
  by (induction ws arbitrary: i) auto

lemma handle_entries_fill:
  assumes "handle_entries None d tt ob0 = (r, tt', x)"
  shows "handle_entries (Some off) d tt ob
         = (r, tt', puts (Some off) (entries tt) (accept tt (toks (delim tt) d)) ob)"
proof -
  have "counted (handle_entries (Some off) d tt ob) = (r, tt')"
    using handle_entries_counted [of "Some off" d tt ob ob0] assms by (simp add: counted_def)
  moreover obtain r2 tt2 where
    "handle_entries (Some off) d tt ob
       = (r2, tt2, puts (Some off) (entries tt) (accept tt (toks (delim tt) d)) ob)"
    using handle_entries_spec [of "Some off" d tt ob] by blast
  ultimately show ?thesis by (simp add: counted_def)
qed

lemma next_data_None:
  "next_data d data inp = None \<Longrightarrow> data = None \<and> inp = [] \<and> pending d data inp = []"
  by (cases data)
     (auto simp: next_data_def pending_def getdelim_def stream_toks.simps
        split: option.splits if_splits list.splits)

lemma next_data_Some:
  "next_data d data inp = Some (l, inp1) \<Longrightarrow> pending d data inp = toks d l @ pending d None inp1"
  by (cases data)
     (auto simp: next_data_def pending_def stream_toks.simps [of d inp]
        split: option.splits)

lemma read_lines_spec:
  "read_lines tt data dl inp dn = (tt1, data1, dl1, inp1, dn1) \<Longrightarrow>
     read_ok tt (pending (delim tt) data inp) dn tt1 data1 inp1 dn1
     \<and> (\<exists>new. dl1 = dl @ new
          \<and> (\<forall>off ob. fill off new tt ob
                = (tt1, puts (Some off) (entries tt) (accept tt (pending (delim tt) data inp)) ob)))"
proof (induction tt data dl inp dn arbitrary: tt1 data1 dl1 inp1 dn1 rule: read_lines.induct)
  case (1 tt data dlist inp dn)
  show ?case
  proof (cases "next_data (delim tt) data inp")
    case None
    then have "data = None" "inp = []" "pending (delim tt) data inp = []"
      by (simp_all add: next_data_None)
    moreover from None "1.prems" have "tt1 = tt" "data1 = None" "dl1 = dlist" "inp1 = inp" "dn1 = dn + 1"
      by (simp_all add: read_lines.simps)
    ultimately show ?thesis
      by (simp add: read_ok_def same_opts_refl)
  next
    case (Some x)
    obtain d inp' where x: "x = (d, inp')" by (cases x)
    define W where "W = toks (delim tt) d"
    define R2 where "R2 = pending (delim tt) None inp'"
    have R: "pending (delim tt) data inp = W @ R2"
      using Some x by (simp add: next_data_Some W_def R2_def)
    obtain r tt' where h: "handle_entries None d tt no_out = (r, tt', no_out)"
      and ok: "line_ok tt W r tt'"
      using handle_entries_spec [of None d tt no_out] by (auto simp: W_def)
    have hf: "handle_entries (Some off) d tt ob
                = (r, tt', puts (Some off) (entries tt) (accept tt W) ob)" for off ob
      using handle_entries_fill [OF h] by (simp add: W_def)
    from ok have so: "same_opts tt tt'" and en: "entries tt' = entries (adv tt (accept tt W))"
      by (simp_all add: line_ok_def Let_def)
    have lenW: "length (accept tt W) \<le> length W" by (rule length_accept)
    have p2: "pending (delim tt) None inp' = R2" by (simp add: R2_def)
    have pl: "pending (delim tt) (Some l) inp' = toks (delim tt) l @ R2" for l
      by (simp add: R2_def pending_def)
    show ?thesis
    proof (cases r)
      case NeedMore
      with ok have aW: "accept tt W = W" and tt': "tt' = adv tt W"
        by (simp_all add: line_ok_def Let_def)
      from so have dl: "delim tt' = delim tt" by (simp add: same_opts_def)
      have rl: "read_lines tt' None (dlist @ [d]) inp' dn = (tt1, data1, dl1, inp1, dn1)"
        using "1.prems" Some x h NeedMore by (simp add: read_lines.simps [of tt data])
      have nm: "fst (handle_entries None d tt no_out) = NeedMore"
        using h NeedMore by simp
      have rl': "read_lines (fst (snd (handle_entries None d tt no_out))) None (dlist @ [d]) inp' dn
                  = (tt1, data1, dl1, inp1, dn1)"
        using rl h by simp
      have IH: "read_ok tt' R2 dn tt1 data1 inp1 dn1
         \<and> (\<exists>new. dl1 = (dlist @ [d]) @ new
          \<and> (\<forall>off ob. fill off new tt' ob
                = (tt1, puts (Some off) (entries tt') (accept tt' R2) ob)))"
        using "1.IH" [OF Some x [symmetric] refl refl nm rl'] h
        by (simp add: p2 dl)
      then obtain new where new: "dl1 = (dlist @ [d]) @ new"
        and fl: "\<And>off ob. fill off new tt' ob
                = (tt1, puts (Some off) (entries tt') (accept tt' R2) ob)"
        and rk: "read_ok tt' R2 dn tt1 data1 inp1 dn1"
        by blast
      have acc: "accept tt (W @ R2) = W @ accept tt' R2"
        using aW by (simp add: accept_append_full tt')
      have e': "entries tt' = entries tt + length W"
        by (simp add: tt' entries_adv)
      have "fill off (d # new) tt ob
              = (tt1, puts (Some off) (entries tt) (accept tt (W @ R2)) ob)" for off ob
        by (simp add: hf fl acc puts_append aW e')
      moreover have "dl1 = dlist @ (d # new)" using new by simp
      moreover have "read_ok tt (W @ R2) dn tt1 data1 inp1 dn1"
        using rk so
        by (auto simp: read_ok_def Let_def acc adv_append tt' [symmetric] dl
              nth_append elim: same_opts_trans)
      ultimately show ?thesis unfolding R by blast
    next
      case LimitAll
      with ok have aW: "accept tt W = W" and rn: "rej_n (adv tt W)"
        by (auto simp: line_ok_def Let_def)
      from "1.prems" Some x h LimitAll
      have res: "tt1 = tt'" "data1 = None" "dl1 = dlist @ [d]" "inp1 = inp'" "dn1 = dn"
        by (simp_all add: read_lines.simps [of tt data])
      have acc: "accept tt (W @ R2) = W"
        using aW rn by (simp add: accept_append_full accept_rej_n)
      have "fill off [d] tt ob = (tt1, puts (Some off) (entries tt) (accept tt (W @ R2)) ob)" for off ob
        by (simp add: hf acc aW res)
      moreover have "read_ok tt (W @ R2) dn tt1 data1 inp1 dn1"
        using so en rn by (simp add: read_ok_def Let_def acc res aW p2)
      ultimately show ?thesis unfolding R using res by blast
    next
      case (Leftover l)
      with ok have short: "length (accept tt W) < length W"
        and tl: "toks (delim tt) l = drop (length (accept tt W)) W"
        and why: "rej_n (adv tt (accept tt W)) \<or> rej_b (adv tt (accept tt W)) (W ! length (accept tt W))"
        by (simp_all add: line_ok_def Let_def)
      from "1.prems" Some x h Leftover
      have res: "tt1 = tt'" "data1 = Some l" "dl1 = dlist @ [d]" "inp1 = inp'" "dn1 = dn"
        by (simp_all add: read_lines.simps [of tt data])
      have acc: "accept tt (W @ R2) = accept tt W"
        using short by (rule accept_append_short)
      have "fill off [d] tt ob = (tt1, puts (Some off) (entries tt) (accept tt (W @ R2)) ob)" for off ob
        by (simp add: hf acc res)
      moreover have "read_ok tt (W @ R2) dn tt1 data1 inp1 dn1"
        using so en short tl why
        by (simp add: read_ok_def Let_def acc res pl nth_append)
      ultimately show ?thesis unfolding R using res by blast
    next
      case StopE
      with ok have short: "length (accept tt W) < length W"
        and why: "\<not> rej_n (adv tt (accept tt W))"
           "\<not> rej_b (adv tt (accept tt W)) (W ! length (accept tt W))"
           "rej_E (adv tt (accept tt W)) (W ! length (accept tt W))"
        by (simp_all add: line_ok_def Let_def)
      from "1.prems" Some x h StopE
      have res: "tt1 = tt'" "data1 = None" "dl1 = dlist @ [d]" "inp1 = inp'" "dn1 = dn + 1"
        by (simp_all add: read_lines.simps [of tt data])
      have acc: "accept tt (W @ R2) = accept tt W"
        using short by (rule accept_append_short)
      have "fill off [d] tt ob = (tt1, puts (Some off) (entries tt) (accept tt (W @ R2)) ob)" for off ob
        by (simp add: hf acc res)
      moreover have "read_ok tt (W @ R2) dn tt1 data1 inp1 dn1"
        using so en short why
        by (simp add: read_ok_def Let_def acc res nth_append)
      ultimately show ?thesis unfolding R using res by blast
    qed
  qed
qed

lemma same_opts_reset: "same_opts tt tt1 \<Longrightarrow> reset args tt1 = reset args tt"
  by (cases tt, cases tt1) (simp add: same_opts_def reset_def)

lemma same_opts_reset_self: "same_opts (reset args tt) tt1 \<Longrightarrow> reset args tt1 = reset args tt"
  by (cases tt, cases tt1) (simp add: same_opts_def reset_def)

lemma store_fresh:
  "store (length pre) w \<lparr>slots = pre @ None # post, oob = False\<rparr>
     = \<lparr>slots = (pre @ [Some w]) @ post, oob = False\<rparr>"
  by (simp add: store_def list_update_append)

lemma puts_fresh:
  "length pre = off + i \<Longrightarrow>
   puts (Some off) i acc \<lparr>slots = pre @ replicate (length acc) None @ post, oob = False\<rparr>
     = \<lparr>slots = pre @ map Some acc @ post, oob = False\<rparr>"
proof (induction acc arbitrary: i pre)
  case Nil
  show ?case by simp
next
  case (Cons a acc)
  have "put_entry (Some off) i a \<lparr>slots = pre @ None # replicate (length acc) None @ post, oob = False\<rparr>
          = \<lparr>slots = (pre @ [Some a]) @ replicate (length acc) None @ post, oob = False\<rparr>"
    using store_fresh [of pre a "replicate (length acc) None @ post"] Cons.prems
    by (simp add: put_entry_def)
  then show ?case
    using Cons.IH [of "pre @ [Some a]" "i + 1"] Cons.prems by simp
qed

lemma read_argv_terminated: "read_argv (map Some xs @ None # ys) = Some xs"
  by (induction xs) auto

lemma fill_after_read:
  assumes rd: "read_lines (reset args tt) data [] inp dn = (tt1, data1, dl1, inp1, dn1)"
  defines "acc \<equiv> accept (reset args tt) (pending (delim tt) data inp)"
  shows "fill (length args) dl1 (reset args tt1)
           \<lparr>slots = map Some args @ replicate (entries tt1 + 1) None, oob = False\<rparr>
         = (tt1, \<lparr>slots = map Some args @ map Some acc @ [None], oob = False\<rparr>)"
    and "entries tt1 = length acc"
    and "reset args tt1 = reset args tt"
    and "read_ok (reset args tt) (pending (delim tt) data inp) dn tt1 data1 inp1 dn1"
proof -
  have d: "delim (reset args tt) = delim tt" by (simp add: reset_def)
  from read_lines_spec [OF rd]
  have ok: "read_ok (reset args tt) (pending (delim tt) data inp) dn tt1 data1 inp1 dn1"
    and fl: "\<And>off ob. fill off dl1 (reset args tt) ob
               = (tt1, puts (Some off) (entries (reset args tt)) acc ob)"
    by (auto simp: d acc_def)
  show ok': "read_ok (reset args tt) (pending (delim tt) data inp) dn tt1 data1 inp1 dn1"
    by (rule ok)
  from ok show en: "entries tt1 = length acc"
    by (simp add: read_ok_def Let_def entries_adv acc_def reset_def)
  from ok have "same_opts (reset args tt) tt1"
    by (simp add: read_ok_def Let_def)
  then show rs: "reset args tt1 = reset args tt"
    by (rule same_opts_reset_self)
  have "puts (Some (length args)) 0 acc
          \<lparr>slots = map Some args @ replicate (length acc) None @ [None], oob = False\<rparr>
        = \<lparr>slots = map Some args @ map Some acc @ [None], oob = False\<rparr>"
    by (rule puts_fresh) simp
  moreover have "replicate (length acc + 1) None = replicate (length acc) (None :: string option) @ [None]"
    by (simp add: replicate_append_same)
  ultimately show "fill (length args) dl1 (reset args tt1)
           \<lparr>slots = map Some args @ replicate (entries tt1 + 1) None, oob = False\<rparr>
         = (tt1, \<lparr>slots = map Some args @ map Some acc @ [None], oob = False\<rparr>)"
    unfolding rs en fl by (simp add: reset_def)
qed

subsection \<open>One turn of the loop\<close>

text \<open>
  The four ways through one turn of \<^verbatim>\<open>while (data || !done)\<close>: the loop is over,
  \<^verbatim>\<open>continue\<close> under \<^verbatim>\<open>-r\<close>, \<^verbatim>\<open>error_exit\<close>, a batch.
\<close>

lemma loop_done:
  "data = None \<Longrightarrow> dn \<noteq> 0 \<Longrightarrow>
   xargs_loop (Suc fuel) cfg w args tt k data dn dl inp = (Finished, [])"
  by simp

lemma loop_skip:
  assumes "data \<noteq> None \<or> dn = 0"
    and "read_lines (reset args tt) data dl inp dn = (tt1, data1, dl1, inp1, dn1)"
    and "entries tt1 = 0" and "flag_r cfg"
  shows "xargs_loop (Suc fuel) cfg w args tt k data dn dl inp
         = xargs_loop fuel cfg w args tt1 k data1 dn1 dl1 inp1"
  using assms by (auto simp: reset_def)

lemma loop_fatal:
  assumes "data \<noteq> None \<or> dn = 0"
    and "read_lines (reset args tt) data dl inp dn = (tt1, data1, dl1, inp1, dn1)"
    and "entries tt1 = 0" and "\<not> flag_r cfg" and "data1 \<noteq> None"
  shows "xargs_loop (Suc fuel) cfg w args tt k data dn dl inp = (Fatal ''argument too long'', [])"
  using assms by (auto simp: reset_def)

lemma loop_batch:
  assumes nd: "data \<noteq> None \<or> dn = 0"
    and rd: "read_lines (reset args tt) data [] inp dn = (tt1, data1, dl1, inp1, dn1)"
    and ns: "entries tt1 \<noteq> 0 \<or> \<not> flag_r cfg"
    and nf: "entries tt1 \<noteq> 0 \<or> data1 = None"
  shows "xargs_loop (Suc fuel) cfg w args tt k data dn [] inp
         = (fst (xargs_loop fuel cfg w args tt1 (k + 1) data1 dn1 [] inp1),
            event cfg w k (args @ accept (reset args tt) (pending (delim tt) data inp))
              # snd (xargs_loop fuel cfg w args tt1 (k + 1) data1 dn1 [] inp1))"
proof -
  note fl = fill_after_read(1) [OF rd, unfolded reset_def]
  have rd': "read_lines (tt\<lparr>entries := 0, bytes := prefix_bytes args\<rparr>) data [] inp dn
             = (tt1, data1, dl1, inp1, dn1)"
    using rd by (simp add: reset_def)
  have 1: "\<not> (data = None \<and> dn \<noteq> 0)" using nd by auto
  have 2: "\<not> (entries tt1 = 0 \<and> flag_r cfg)" using ns by auto
  have 3: "\<not> (data1 \<noteq> None \<and> entries tt1 = 0)" using nf by auto
  show ?thesis
    by (simp only: xargs_loop.simps 1 2 3 rd' fl if_False prod.case outbuf.simps
          read_argv_terminated [of "args @ _", simplified] option.case Let_def)
       (simp add: event_def reset_def)
qed

subsection \<open>Every batch of a run\<close>

text \<open>
  \<open>loop_safe\<close>: however far a run has come, it has not left the array, and the
  argument vector of each of its batches is the command and the tokens that \<open>accept\<close>
  takes from some token list, starting from the counters of an empty batch.
\<close>

lemma rej_n_reset [simp]: "\<not> rej_n (reset args tt)"
  by (auto simp: rej_n_def reset_def)

lemma argv_of_event [simp]: "argv_of (event cfg w k a) = a"
  by (simp add: event_def)

lemma accept_hd_rej: "R \<noteq> [] \<Longrightarrow> rej_b tt (hd R) \<Longrightarrow> accept tt R = []"
  by (cases R) simp_all

lemma read_lines_cases:
  obtains tt1 data1 dl1 inp1 dn1 where
    "read_lines tt data dl inp dn = (tt1, data1, dl1, inp1, dn1)"
  by (cases "read_lines tt data dl inp dn") blast

lemma loop_safe:
  assumes "dl = [] \<or> stuck cfg (reset args tt) data dn"
  shows "fst (xargs_loop fuel cfg w args tt k data dn dl inp) \<noteq> Undefined
         \<and> (\<forall>ev \<in> set (snd (xargs_loop fuel cfg w args tt k data dn dl inp)).
               \<exists>R. argv_of ev = args @ accept (reset args tt) R)"
  using assms
proof (induction fuel arbitrary: tt k data dn dl inp)
  case 0
  show ?case by simp
next
  case (Suc fuel)
  show ?case
  proof (cases "data = None \<and> dn \<noteq> 0")
    case True
    then show ?thesis by simp
  next
    case False
    then have nd: "data \<noteq> None \<or> dn = 0" by auto
    define t0 where "t0 = reset args tt"
    have d0: "delim t0 = delim tt" by (simp add: t0_def reset_def)
    obtain tt1 data1 dl1 inp1 dn1 where
      rd: "read_lines (reset args tt) data dl inp dn = (tt1, data1, dl1, inp1, dn1)"
      by (rule read_lines_cases)
    define R where "R = pending (delim tt) data inp"
    from read_lines_spec [OF rd]
    have ok: "read_ok t0 R dn tt1 data1 inp1 dn1"
      by (simp add: t0_def R_def reset_def)
    then have so: "same_opts t0 tt1" and en: "entries tt1 = length (accept t0 R)"
      by (simp_all add: read_ok_def Let_def entries_adv t0_def reset_def)
    from so have rs: "reset args tt1 = reset args tt"
      unfolding t0_def by (rule same_opts_reset_self)
    have next_stuck: "stuck cfg (reset args tt1) data1 dn1" if a0: "accept t0 R = []" and fr: "flag_r cfg"
    proof -
      from ok a0 have
        "(data1 = None \<and> dn1 = dn + 1)
         \<or> (\<exists>l. data1 = Some l \<and> toks (delim t0) l \<noteq> [] \<and> R \<noteq> []
               \<and> pending (delim t0) (Some l) inp1 = R \<and> rej_b t0 (R ! 0))"
        by (auto simp: read_ok_def Let_def t0_def)
      then show ?thesis
      proof
        assume "data1 = None \<and> dn1 = dn + 1"
        then show ?thesis using fr by (simp add: stuck_def)
      next
        assume "\<exists>l. data1 = Some l \<and> toks (delim t0) l \<noteq> [] \<and> R \<noteq> []
               \<and> pending (delim t0) (Some l) inp1 = R \<and> rej_b t0 (R ! 0)"
        then obtain l where l: "data1 = Some l" "toks (delim t0) l \<noteq> []" "R \<noteq> []"
          "pending (delim t0) (Some l) inp1 = R" "rej_b t0 (R ! 0)" by blast
        from l(2,4) have "hd (toks (delim t0) l) = hd R"
          by (auto simp: pending_def)
        moreover from l(3) have "R ! 0 = hd R" by (simp add: hd_conv_nth)
        ultimately show ?thesis
          using l fr by (simp add: stuck_def rs t0_def [symmetric])
      qed
    qed
    show ?thesis
    proof (cases "dl = []")
      case dl: True
      show ?thesis
      proof (cases "entries tt1 = 0 \<and> flag_r cfg")
        case True
        then have a0: "accept t0 R = []" using en by simp
        have eq: "xargs_loop (Suc fuel) cfg w args tt k data dn dl inp
                  = xargs_loop fuel cfg w args tt1 k data1 dn1 dl1 inp1"
          using nd rd True by (intro loop_skip) simp_all
        have "dl1 = [] \<or> stuck cfg (reset args tt1) data1 dn1"
          using next_stuck [OF a0] True by simp
        from Suc.IH [OF this] show ?thesis
          unfolding eq rs by simp
      next
        case ns: False
        show ?thesis
        proof (cases "entries tt1 = 0 \<and> data1 \<noteq> None")
          case True
          with ns have "xargs_loop (Suc fuel) cfg w args tt k data dn dl inp
                         = (Fatal ''argument too long'', [])"
            using nd rd by (intro loop_fatal) auto
          then show ?thesis by simp
        next
          case nf: False
          have eq: "xargs_loop (Suc fuel) cfg w args tt k data dn dl inp
              = (fst (xargs_loop fuel cfg w args tt1 (k + 1) data1 dn1 [] inp1),
                 event cfg w k (args @ accept (reset args tt) (pending (delim tt) data inp))
                 # snd (xargs_loop fuel cfg w args tt1 (k + 1) data1 dn1 [] inp1))"
            unfolding dl using nd rd [unfolded dl] ns nf by (intro loop_batch) auto
          have "([]::string list) = [] \<or> stuck cfg (reset args tt1) data1 dn1" by simp
          from Suc.IH [OF this, of "k + 1" inp1] show ?thesis
            unfolding eq rs by auto
        qed
      qed
    next
      case False
      with Suc.prems have st: "stuck cfg t0 data dn" by (simp add: t0_def)
      with nd obtain l where l: "data = Some l" "toks (delim t0) l \<noteq> []"
        "rej_b t0 (hd (toks (delim t0) l))" and fr: "flag_r cfg"
        by (auto simp: stuck_def)
      have "R \<noteq> []" "hd R = hd (toks (delim t0) l)"
        using l by (simp_all add: R_def pending_def d0)
      with l have a0: "accept t0 R = []" by (simp add: accept_hd_rej)
      have eq: "xargs_loop (Suc fuel) cfg w args tt k data dn dl inp
                = xargs_loop fuel cfg w args tt1 k data1 dn1 dl1 inp1"
        using nd rd a0 en fr by (intro loop_skip) simp_all
      have "dl1 = [] \<or> stuck cfg (reset args tt1) data1 dn1"
        using next_stuck [OF a0 fr] by simp
      from Suc.IH [OF this] show ?thesis
        unfolding eq rs by simp
    qed
  qed
qed

subsection \<open>How a run ends\<close>

text \<open>
  \<open>loop_live\<close>: without a stop string and, where \<^verbatim>\<open>-r\<close> is set, with every
  token fitting an empty batch, some number of turns ends the run; its batches are
  those of \<open>chunks\<close>, and it ends as \<open>run_ok\<close> says.
\<close>

lemma accept_take_drop: "accept tt R @ drop (length (accept tt R)) R = R"
  by (metis accept_prefix append_take_drop_id)

lemma chunks_Nil [simp]: "chunks t0 [] = []"
  by (simp add: chunks.simps)

lemma loop_live:
  assumes "delim tt = CHR 0x00 \<or> E tt = None"
    and "\<not> flag_r cfg \<or> (\<forall>x \<in> set (pending (delim tt) data inp). \<not> rej_b (reset args tt) x)"
  shows "\<exists>fuel oc tr.
           xargs_loop fuel cfg w args tt k data 0 [] inp
             = (oc, events_of cfg w args k (chunks (reset args tt) (pending (delim tt) data inp) @ tr))
           \<and> run_ok cfg (reset args tt) (pending (delim tt) data inp) oc tr"
  using assms
proof (induction "length (pending (delim tt) data inp)" arbitrary: tt k data inp rule: less_induct)
  case less
  define t0 where "t0 = reset args tt"
  define R where "R = pending (delim tt) data inp"
  have d0: "delim t0 = delim tt" and E0: "E t0 = E tt" by (simp_all add: t0_def reset_def)
  have nd: "data \<noteq> None \<or> (0::nat) = 0" by simp
  obtain tt1 data1 dl1 inp1 dn1 where
    rd: "read_lines (reset args tt) data [] inp 0 = (tt1, data1, dl1, inp1, dn1)"
    by (rule read_lines_cases)
  note far = fill_after_read [OF rd]
  have ok: "read_ok t0 R 0 tt1 data1 inp1 dn1"
    using far(4) by (simp add: t0_def R_def)
  have en: "entries tt1 = length (accept t0 R)"
    using far(2) by (simp add: t0_def R_def)
  have rs: "reset args tt1 = t0"
    using far(3) by (simp add: t0_def)
  from ok have "same_opts t0 tt1" by (simp add: read_ok_def Let_def)
  then have d1: "delim tt1 = delim tt" and E1: "E tt1 = E tt"
    by (simp_all add: same_opts_def d0 E0)
  have noE: "\<not> rej_E tta x" if "same_opts t0 tta" for tta x
    using less.prems(1) that by (auto simp: rej_E_def same_opts_def d0 E0)
  have noE': "\<not> rej_E (adv t0 (accept t0 R)) x" for x
    by (rule noE) (rule same_opts_adv)
  have done1: "xargs_loop (Suc f) cfg w args tt1 k' None (0 + 1) [] inp1 = (Finished, [])" for f k'
    by simp
  show ?case
  proof (cases "accept t0 R = []")
    case a0: True
    then have ch: "chunks t0 R = []" by (simp add: chunks.simps)
    from ok a0 noE' consider
      (eof) "data1 = None" "dn1 = 0 + 1" "R = []"
      | (left) l where "data1 = Some l" "R \<noteq> []" "rej_b t0 (R ! 0)"
      by (auto simp: read_ok_def Let_def t0_def)
    then show ?thesis
    proof cases
      case eof
      show ?thesis
      proof (cases "flag_r cfg")
        case True
        have "xargs_loop (Suc (Suc 0)) cfg w args tt k data 0 [] inp
                = xargs_loop (Suc 0) cfg w args tt1 k data1 dn1 dl1 inp1"
          using nd rd en a0 True by (intro loop_skip) simp_all
        also have "\<dots> = (Finished, [])" using eof by simp
        finally have "xargs_loop (Suc (Suc 0)) cfg w args tt k data 0 [] inp
                = (Finished, events_of cfg w args k (chunks t0 R @ []))"
          by (simp add: ch)
        moreover have "run_ok cfg t0 R Finished []"
          using eof by (simp add: run_ok_def)
        ultimately show ?thesis unfolding t0_def R_def by blast
      next
        case False
        have "xargs_loop (Suc (Suc 0)) cfg w args tt k data 0 [] inp
              = (fst (xargs_loop (Suc 0) cfg w args tt1 (k + 1) data1 dn1 [] inp1),
                 event cfg w k (args @ accept (reset args tt) (pending (delim tt) data inp))
                 # snd (xargs_loop (Suc 0) cfg w args tt1 (k + 1) data1 dn1 [] inp1))"
          using nd rd False eof by (intro loop_batch) simp_all
        then have "xargs_loop (Suc (Suc 0)) cfg w args tt k data 0 [] inp
                = (Finished, events_of cfg w args k (chunks t0 R @ [[]]))"
          using eof a0 by (simp add: ch t0_def R_def)
        moreover have "run_ok cfg t0 R Finished [[]]"
          using eof False by (simp add: run_ok_def)
        ultimately show ?thesis unfolding t0_def R_def by blast
      qed
    next
      case left
      from left have "rej_b t0 (hd R)" by (simp add: hd_conv_nth)
      moreover from left have "hd R \<in> set R" by simp
      ultimately have nr: "\<not> flag_r cfg"
        using less.prems(2) by (auto simp: t0_def R_def)
      have "xargs_loop (Suc 0) cfg w args tt k data 0 [] inp = (Fatal ''argument too long'', [])"
        using nd rd en a0 nr left by (intro loop_fatal) auto
      then have "xargs_loop (Suc 0) cfg w args tt k data 0 [] inp
                = (Fatal ''argument too long'', events_of cfg w args k (chunks t0 R @ []))"
        by (simp add: ch)
      moreover have "run_ok cfg t0 R (Fatal ''argument too long'') []"
        using left by (simp add: run_ok_def ch)
      ultimately show ?thesis unfolding t0_def R_def by blast
    qed
  next
    case a1: False
    define acc where "acc = accept t0 R"
    define R' where "R' = drop (length acc) R"
    have RR: "R = acc @ R'"
      unfolding acc_def R'_def by (simp add: accept_take_drop)
    have ch: "chunks t0 R = acc # chunks t0 R'"
      using a1 by (subst chunks.simps) (simp add: acc_def R'_def)
    have accne: "acc \<noteq> []" using a1 by (simp add: acc_def)
    have step: "xargs_loop (Suc f) cfg w args tt k data 0 [] inp
              = (fst (xargs_loop f cfg w args tt1 (k + 1) data1 dn1 [] inp1),
                 event cfg w k (args @ acc)
                 # snd (xargs_loop f cfg w args tt1 (k + 1) data1 dn1 [] inp1))" for f
      using loop_batch [OF nd rd, of cfg f w k] en a1
      by (simp add: acc_def t0_def R_def)
    from ok noE' consider
      (eof) "data1 = None" "dn1 = 0 + 1" "acc = R"
      | (more) "dn1 = 0" "pending (delim tt) data1 inp1 = R'"
               "R' = [] \<longrightarrow> rej_n (adv t0 acc)"
      by (auto simp: read_ok_def Let_def acc_def R'_def d0)
    then show ?thesis
    proof cases
      case eof
      then have R'0: "R' = []" using RR by simp
      have "xargs_loop (Suc (Suc 0)) cfg w args tt k data 0 [] inp
              = (Finished, events_of cfg w args k (chunks t0 R @ []))"
        using eof by (simp only: step) (simp add: ch R'0)
      moreover have "concat (chunks t0 R) = R"
        unfolding ch R'0 using RR R'0 by simp
      then have "run_ok cfg t0 R Finished []"
        by (simp add: run_ok_def)
      ultimately show ?thesis unfolding t0_def R_def by blast
    next
      case more
      have shorter: "length (pending (delim tt1) data1 inp1) < length (pending (delim tt) data inp)"
        using more(2) RR accne by (simp add: d1 R_def [symmetric])
      have p1: "delim tt1 = CHR 0x00 \<or> E tt1 = None"
        using less.prems(1) by (simp add: d1 E1)
      have p2: "\<not> flag_r cfg
                \<or> (\<forall>x \<in> set (pending (delim tt1) data1 inp1). \<not> rej_b (reset args tt1) x)"
        using less.prems(2) more(2) RR by (auto simp: d1 rs t0_def R_def [symmetric])
      from less.hyps [OF shorter p1 p2, of "k + 1"]
      obtain fuel oc tr where
        r: "xargs_loop fuel cfg w args tt1 (k + 1) data1 0 [] inp1
              = (oc, events_of cfg w args (k + 1) (chunks t0 R' @ tr))"
        and rk: "run_ok cfg t0 R' oc tr"
        by (auto simp: rs d1 more(2))
      have "xargs_loop (Suc fuel) cfg w args tt k data 0 [] inp
              = (oc, events_of cfg w args k (chunks t0 R @ tr))"
        using r more(1) by (simp only: step) (simp add: ch)
      moreover have "run_ok cfg t0 R oc tr"
      proof -
        have ch': "chunks t0 (acc @ R') = acc # chunks t0 R'"
          using ch RR by simp
        show ?thesis
        proof (cases "R' = []")
          case True
          have "chunks t0 acc = [acc]"
            using ch' True by simp
          with rk more(3) True show ?thesis
            unfolding RR by (auto simp: run_ok_def)
        next
          case False
          have "chunks t0 R' \<noteq> []" if "concat (chunks t0 R') = R'"
            using that False by auto
          with rk False show ?thesis
            unfolding RR by (auto simp: run_ok_def ch' accne)
        qed
      qed
      ultimately show ?thesis unfolding t0_def R_def by blast
    qed
  qed
qed

subsection \<open>The program from its start\<close>

text \<open>
  \<^verbatim>\<open>xargs_main\<close> enters the loop with the limits of the configuration; the bytes of
  the command are not negative; the tokens of a batch stay within the byte budget
  (\<open>accept_within\<close>); no run ends in \<open>Undefined\<close> (\<open>run_never_undefined\<close>).
\<close>

lemma xargs_main_start:
  "xargs_main fuel cfg w inp
     = xargs_loop fuel cfg w (command cfg) ((limits cfg)\<lparr>bytes := 0\<rparr>) 0 None 0 [] inp"
  by (simp add: xargs_main_def command_def limits_def byte_limit_def Let_def)

lemma reset_start: "reset (command cfg) ((limits cfg)\<lparr>bytes := 0\<rparr>) = limits cfg"
  by (simp add: reset_def limits_def)


lemma pending_None: "pending d None inp = stream_toks d inp"
  by (simp add: pending_def)




lemma cost_step [simp]: "cost (step tt w) = cost tt"
  by (rule ext) (simp add: cost_def step_def)

lemma step_fields [simp]:
  "s (step tt w) = s tt" "bytes (step tt w) = bytes tt + cost tt w"
  "entries (step tt w) = entries tt + 1" "n (step tt w) = n tt"
  by (simp_all add: step_def)







lemma loop_last_batch:
  assumes rd: "read_lines (reset args tt) data [] inp 0 = (tt1, None, dl1, inp1, Suc 0)"
    and ns: "entries tt1 \<noteq> 0 \<or> \<not> flag_r cfg"
  shows "xargs_loop (Suc (Suc fuel)) cfg w args tt k data 0 [] inp
         = (Finished,
            [event cfg w k (args @ accept (reset args tt) (pending (delim tt) data inp))])"
proof -
  have nd: "data \<noteq> None \<or> (0::nat) = 0" by simp
  have nf: "entries tt1 \<noteq> 0 \<or> (None :: string option) = None" by simp
  show ?thesis
    by (simp only: loop_batch [OF nd rd ns nf]) simp
qed

lemma read_lines_no_tokens:
  assumes "pending (delim tt) data inp = []"
  shows "\<exists>tt1 dl1 inp1. read_lines (reset args tt) data [] inp 0 = (tt1, None, dl1, inp1, Suc 0)
           \<and> entries tt1 = 0"
proof -
  obtain tt1 data1 dl1 inp1 dn1 where
    rd: "read_lines (reset args tt) data [] inp 0 = (tt1, data1, dl1, inp1, dn1)"
    by (rule read_lines_cases)
  note far = fill_after_read [OF rd]
  from far(4) assms have "data1 = None \<and> dn1 = Suc 0"
    by (auto simp: read_ok_def Let_def)
  moreover from far(2) assms have "entries tt1 = 0" by simp
  ultimately show ?thesis using rd by blast
qed

lemma run_never_undefined: "fst (xargs_main fuel cfg w inp) \<noteq> Undefined"
proof -
  have "([]::string list) = [] \<or> stuck cfg (reset (command cfg) ((limits cfg)\<lparr>bytes := 0\<rparr>)) None 0"
    by simp
  from loop_safe [OF this] show ?thesis
    unfolding xargs_main_start by blast
qed

subsection \<open>The batches of a token list\<close>

text \<open>
  \<open>chunks_takeWhile\<close>: without a stop string the batches hold the tokens before the
  first one that does not fit an empty batch. \<open>chunks_window\<close>: when every \<open>n\<close>
  consecutive tokens fit, the batches hold all tokens, \<open>n\<close> each but the last.
\<close>

lemma cost_pos: "0 < cost tt x"
  by (simp add: cost_def)

lemma cost_same: "same_opts t0 tt \<Longrightarrow> cost tt x = cost t0 x"
  by (simp add: same_opts_def cost_def)

lemma below_step: "below t0 tt \<Longrightarrow> below t0 (step tt x)"
  using cost_pos [of tt x] by (simp add: below_def same_opts_def step_def)

lemma below_refl: "below t0 t0"
  by (simp add: below_def same_opts_refl)

lemma below_rej_b: "below t0 tt \<Longrightarrow> \<not> rej_b tt x \<Longrightarrow> \<not> rej_b t0 x"
  by (auto simp: below_def rej_b_def cost_same) (auto simp: same_opts_def)

lemma accept_all_fit: "below t0 tt \<Longrightarrow> x \<in> set (accept tt R) \<Longrightarrow> \<not> rej_b t0 x"
proof (induction R arbitrary: tt)
  case Nil
  then show ?case by simp
next
  case (Cons y R)
  from Cons.prems(2) have nr: "\<not> rej_b tt y" and
    mem: "x = y \<or> x \<in> set (accept (step tt y) R)"
    by (auto split: if_splits)
  from mem show ?case
  proof
    assume "x = y"
    with nr Cons.prems(1) show ?thesis by (auto dest: below_rej_b)
  next
    assume "x \<in> set (accept (step tt y) R)"
    with Cons.IH [OF below_step [OF Cons.prems(1)]] show ?thesis by blast
  qed
qed


lemma accept_Nil_iff:
  assumes "\<not> rej_n tt" and "delim tt = CHR 0x00 \<or> E tt = None"
  shows "accept tt R = [] \<longleftrightarrow> R = [] \<or> rej_b tt (hd R)"
  using assms by (cases R) (auto simp: rej_E_def)

lemma chunks_takeWhile:
  "\<not> rej_n t0 \<Longrightarrow> delim t0 = CHR 0x00 \<or> E t0 = None \<Longrightarrow>
   concat (chunks t0 R) = takeWhile (\<lambda>x. \<not> rej_b t0 x) R"
proof (induction t0 R rule: chunks.induct)
  case (1 t0 R)
  show ?case
  proof (cases "accept t0 R = []")
    case True
    then have "R = [] \<or> rej_b t0 (hd R)"
      using accept_Nil_iff [OF "1.prems"] by simp
    then have "takeWhile (\<lambda>x. \<not> rej_b t0 x) R = []"
      by (cases R) auto
    with True show ?thesis by (simp add: chunks.simps [of t0 R])
  next
    case False
    define acc where "acc = accept t0 R"
    define R' where "R' = drop (length acc) R"
    have RR: "acc @ R' = R"
      unfolding acc_def R'_def by (rule accept_take_drop)
    have fit: "\<forall>x \<in> set acc. \<not> rej_b t0 x"
      unfolding acc_def using accept_all_fit [OF below_refl] by blast
    have "concat (chunks t0 R) = acc @ concat (chunks t0 R')"
      using False by (simp add: chunks.simps [of t0 R] acc_def R'_def)
    also have "concat (chunks t0 R') = takeWhile (\<lambda>x. \<not> rej_b t0 x) R'"
      using "1.IH" [OF False "1.prems"] by (simp add: acc_def R'_def)
    also have "acc @ takeWhile (\<lambda>x. \<not> rej_b t0 x) R' = takeWhile (\<lambda>x. \<not> rej_b t0 x) (acc @ R')"
      using fit by (simp add: takeWhile_append2)
    finally show ?thesis by (simp add: RR)
  qed
qed



subsection \<open>The tokens of the input in whitespace mode\<close>

text \<open>
  \<open>stream_toks_ws\<close>: the tokens of an input without NUL bytes, read line by line,
  are the whitespace-separated words of the whole input.
\<close>

lemma getdelim_split:
  assumes "getdelim d inp = Some (line, rest)"
  shows "inp = line @ rest \<and> line \<noteq> [] \<and> (rest = [] \<or> last line = d)"
proof (cases "dropWhile (\<lambda>c. c \<noteq> d) inp")
  case Nil
  from assms show ?thesis
    unfolding getdelim_def Nil by (auto split: if_splits)
next
  case (Cons c r)
  from assms have l: "line = takeWhile (\<lambda>c. c \<noteq> d) inp @ [c]" and r: "rest = r"
    unfolding getdelim_def Cons by (auto split: if_splits)
  have "takeWhile (\<lambda>c. c \<noteq> d) inp @ dropWhile (\<lambda>c. c \<noteq> d) inp = inp"
    by simp
  then have "line @ rest = inp"
    unfolding Cons l r by simp
  moreover have "c = d"
    using hd_dropWhile [of "\<lambda>c. c \<noteq> d" inp] Cons by simp
  ultimately show ?thesis by (auto simp: l)
qed

lemma ws_words_all_space: "\<forall>c \<in> set xs. isspace c \<Longrightarrow> ws_words (xs @ ys) = ws_words ys"
  by (induction xs) (simp_all add: ws_words_space)

lemma ws_words_append:
  "xs = [] \<or> isspace (last xs) \<Longrightarrow> ws_words (xs @ ys) = ws_words xs @ ws_words ys"
proof (induction "length xs" arbitrary: xs rule: less_induct)
  case less
  show ?case
  proof (cases xs)
    case Nil
    then show ?thesis by simp
  next
    case (Cons c cs)
    show ?thesis
    proof (cases "isspace c")
      case True
      have "cs = [] \<or> isspace (last cs)"
        using less.prems Cons by (auto split: if_splits)
      from less.hyps [OF _ this] show ?thesis
        using True Cons by (simp add: ws_words_space)
    next
      case False
      let ?nsp = "\<lambda>c. \<not> isspace c"
      from less.prems Cons False have sp: "isspace (last xs)" "last xs \<in> set xs"
        by auto
      then have ex: "\<not> ?nsp (last xs)" by simp
      have tk: "takeWhile ?nsp (xs @ ys) = takeWhile ?nsp xs"
        using sp(2) ex by (rule takeWhile_append1)
      have dr: "dropWhile ?nsp (xs @ ys) = dropWhile ?nsp xs @ ys"
        using sp(2) ex by (rule dropWhile_append1)
      define rest where "rest = dropWhile ?nsp xs"
      have rne: "rest \<noteq> []" using sp by (auto simp: rest_def)
      have "\<exists>pre. xs = pre @ rest"
        unfolding rest_def by (metis takeWhile_dropWhile_id)
      then have "last rest = last xs" using rne by auto
      with sp have c1: "rest = [] \<or> isspace (last rest)" by simp
      have c2: "length rest < length xs"
        using Cons False by (simp add: rest_def length_dropWhile_le less_Suc_eq_le)
      have e1: "ws_words (xs @ ys) = takeWhile ?nsp xs # ws_words (rest @ ys)"
        using Cons False ws_words_token [of c "cs @ ys"] tk dr by (simp add: rest_def)
      have e2: "ws_words (rest @ ys) = ws_words rest @ ws_words ys"
        using less.hyps [OF c2 c1] .
      have e3: "ws_words xs = takeWhile ?nsp xs # ws_words rest"
        using Cons False ws_words_token [of c cs] by (simp add: rest_def)
      show ?thesis by (simp add: e1 e2 e3)
    qed
  qed
qed

lemma stream_toks_ws_gen:
  "d = CHR 0x0A \<Longrightarrow> CHR 0x00 \<notin> set inp \<Longrightarrow> stream_toks d inp = ws_words inp"
proof (induction d inp rule: stream_toks.induct)
  case (1 d inp)
  note d = "1.prems"(1)
  show ?case
  proof (cases "getdelim d inp")
    case None
    then have "inp = []" by (simp add: getdelim_def split: if_splits list.splits)
    then show ?thesis by (simp add: stream_toks.simps [of _ "[]"] getdelim_def)
  next
    case (Some x)
    obtain line rest where x: "x = (line, rest)" by (cases x)
    from getdelim_split [OF Some [unfolded x]]
    have sp: "line @ rest = inp" "line \<noteq> []" "rest = [] \<or> last line = d" by simp_all
    from "1.prems"(2) sp(1) have nz: "CHR 0x00 \<notin> set line" "CHR 0x00 \<notin> set rest" by auto
    then have cs: "cstr line = line"
      by (auto simp: cstr_def takeWhile_eq_all_conv)
    have IH: "stream_toks d rest = ws_words rest"
      using "1.IH" [OF Some x [symmetric] d nz(2)] .
    have "ws_words (line @ rest) = ws_words line @ ws_words rest"
    proof (cases "rest = []")
      case True
      then show ?thesis by simp
    next
      case False
      with sp(3) have "isspace (last line)" by (simp add: isspace_def d)
      then show ?thesis by (intro ws_words_append) simp
    qed
    then have "ws_words inp = ws_words line @ ws_words rest"
      by (simp add: sp(1))
    moreover have "stream_toks d inp = toks d (cstr line) @ stream_toks d rest"
      using Some x by (subst stream_toks.simps) simp
    ultimately show ?thesis
      using IH cs by (simp add: toks_def d)
  qed
qed

lemma stream_toks_ws:
  "CHR 0x00 \<notin> set inp \<Longrightarrow> stream_toks (CHR 0x0A) inp = ws_words inp"
  by (rule stream_toks_ws_gen) simp_all

subsection \<open>Runs that end\<close>

text \<open>
  \<open>main_live\<close> is \<open>loop_live\<close> for the whole program. \<open>loop_fuel\<close> and
  \<open>main_fuel\<close>: once a number of turns has ended the run, every larger number gives
  the same result.
\<close>

lemma batch_tokens_events:
  "map (batch_tokens cfg) (events_of cfg w (command cfg) k bs) = bs"
  by (induction bs arbitrary: k) (simp_all add: batch_tokens_def)

lemma events_ran:
  "flag_p cfg \<longrightarrow> (\<forall>k. yesno w k) \<Longrightarrow> ev \<in> set (events_of cfg w args k bs) \<Longrightarrow> ran ev"
  by (induction bs arbitrary: k) (auto simp: event_def)

lemma main_live:
  assumes "flag_0 cfg \<or> opt_E cfg = None"
    and "\<not> flag_r cfg \<or> (\<forall>x \<in> set (input_tokens cfg inp). \<not> rej_b (limits cfg) x)"
  shows "\<exists>fuel oc tr.
           xargs_main fuel cfg w inp
             = (oc, events_of cfg w (command cfg) 0 (chunks (limits cfg) (input_tokens cfg inp) @ tr))
           \<and> run_ok cfg (limits cfg) (input_tokens cfg inp) oc tr"
proof -
  let ?tt = "(limits cfg)\<lparr>bytes := 0\<rparr>"
  have p: "pending (delim ?tt) None inp = input_tokens cfg inp"
    by (simp add: input_tokens_def pending_None)
  have 1: "delim ?tt = CHR 0x00 \<or> E ?tt = None"
    using assms(1) by (auto simp: limits_def)
  have 2: "\<not> flag_r cfg \<or> (\<forall>x \<in> set (pending (delim ?tt) None inp).
              \<not> rej_b (reset (command cfg) ?tt) x)"
    using assms(2) unfolding p reset_start .
  from loop_live [OF 1 2, of w 0] show ?thesis
    unfolding xargs_main_start p reset_start .
qed

lemma limits_fields [simp]:
  "s (limits cfg) = byte_limit cfg" "n (limits cfg) = opt_n cfg" "E (limits cfg) = opt_E cfg"
  "entries (limits cfg) = 0" "bytes (limits cfg) = prefix_bytes (command cfg)"
  "delim (limits cfg) = (if \<not> flag_0 cfg then CHR 0x0A else CHR 0x00)"
  "ptr (limits cfg) = sizeof_ptr cfg"
  by (simp_all add: limits_def)

lemma rej_n_limits [simp]: "\<not> rej_n (limits cfg)"
  by (auto simp: rej_n_def)

lemma noE_limits:
  "flag_0 cfg \<or> opt_E cfg = None \<Longrightarrow> delim (limits cfg) = CHR 0x00 \<or> E (limits cfg) = None"
  by auto

lemma ex_cfg_fields [simp]:
  "opt_s ex_cfg = 0" "opt_n ex_cfg = 0" "opt_E ex_cfg = None" "\<not> flag_0 ex_cfg"
  "\<not> flag_r ex_cfg" "\<not> flag_p ex_cfg" "optargs ex_cfg = []"
  "posix_max_bytes ex_cfg = 131072" "sizeof_ptr ex_cfg = 8"
  by (simp_all add: ex_cfg_def)

lemma ex_command [simp]:
  "optargs cfg = [] \<Longrightarrow> command cfg = [''echo'']"
  "prefix_bytes [''echo''] = 4"
  by (simp_all add: command_def prefix_bytes_def)

lemma fits_iff: "fits cfg x \<longleftrightarrow> \<not> rej_b (limits cfg) x"
  by (auto simp: fits_def rej_b_def)


lemma loop_unfold:
  assumes "\<not> (data = None \<and> dn \<noteq> 0)"
    and "read_lines (tt\<lparr>entries := 0, bytes := prefix_bytes args\<rparr>) data dl inp dn
           = (tt1, data1, dl1, inp1, dn1)"
    and "fill (length args) dl1 (tt1\<lparr>entries := 0, bytes := prefix_bytes args\<rparr>)
           \<lparr>slots = map Some args @ replicate (entries tt1 + 1) None, oob = False\<rparr>
         = (tt2, out)"
  shows "xargs_loop (Suc f) cfg w args tt k data dn dl inp =
     (if entries tt1 = 0 \<and> flag_r cfg
      then xargs_loop f cfg w args tt1 k data1 dn1 dl1 inp1
      else if data1 \<noteq> None \<and> entries tt1 = 0 then (Fatal ''argument too long'', [])
      else if oob out then (Undefined, [])
      else (case read_argv (slots out) of
              None \<Rightarrow> (Undefined, [])
            | Some argv \<Rightarrow>
                (fst (xargs_loop f cfg w args tt2 (k + 1) data1 dn1 [] inp1),
                 event cfg w k argv # snd (xargs_loop f cfg w args tt2 (k + 1) data1 dn1 [] inp1))))"
  by (simp only: xargs_loop.simps assms if_False prod.case Let_def event_def)
     (simp split: option.splits)

lemma loop_fuel:
  "fst (xargs_loop f cfg w args tt k data dn dl inp) \<noteq> Running \<Longrightarrow>
   xargs_loop (f + m) cfg w args tt k data dn dl inp
     = xargs_loop f cfg w args tt k data dn dl inp"
proof (induction f arbitrary: tt k data dn dl inp)
  case 0
  then show ?case by simp
next
  case (Suc f)
  show ?case
  proof (cases "data = None \<and> dn \<noteq> 0")
    case True
    then show ?thesis by simp
  next
    case False
    obtain tt1 data1 dl1 inp1 dn1 where
      rd: "read_lines (tt\<lparr>entries := 0, bytes := prefix_bytes args\<rparr>) data dl inp dn
             = (tt1, data1, dl1, inp1, dn1)"
      by (rule read_lines_cases)
    obtain tt2 out where
      fl: "fill (length args) dl1 (tt1\<lparr>entries := 0, bytes := prefix_bytes args\<rparr>)
             \<lparr>slots = map Some args @ replicate (entries tt1 + 1) None, oob = False\<rparr>
           = (tt2, out)"
      by (cases "fill (length args) dl1 (tt1\<lparr>entries := 0, bytes := prefix_bytes args\<rparr>)
             \<lparr>slots = map Some args @ replicate (entries tt1 + 1) None, oob = False\<rparr>") blast
    note u = loop_unfold [OF False rd fl]
    have up: "Suc f + m = Suc (f + m)" by simp
    show ?thesis
    proof (cases "entries tt1 = 0 \<and> flag_r cfg")
      case True
      with Suc.prems [unfolded u]
      have "fst (xargs_loop f cfg w args tt1 k data1 dn1 dl1 inp1) \<noteq> Running"
        by simp
      from Suc.IH [OF this] True show ?thesis
        by (simp only: up u) simp
    next
      case ns: False
      show ?thesis
      proof (cases "(data1 \<noteq> None \<and> entries tt1 = 0) \<or> oob out \<or> read_argv (slots out) = None")
        case True
        with ns show ?thesis
          by (simp only: up u) auto
      next
        case ok: False
        then obtain argv where av: "read_argv (slots out) = Some argv" by auto
        from Suc.prems [unfolded u] ns ok av
        have "fst (xargs_loop f cfg w args tt2 (k + 1) data1 dn1 [] inp1) \<noteq> Running"
          by auto
        from Suc.IH [OF this] ns ok av show ?thesis
          by (simp only: up u) auto
      qed
    qed
  qed
qed

lemma main_fuel:
  "xargs_main f cfg w inp = (oc, evs) \<Longrightarrow> oc \<noteq> Running \<Longrightarrow>
   xargs_main (f + m) cfg w inp = (oc, evs)"
  using loop_fuel [of f cfg w "command cfg" "(limits cfg)\<lparr>bytes := 0\<rparr>" 0 None 0 "[]" inp m]
  by (simp add: xargs_main_start)

subsection \<open>The long token under -r\<close>

text \<open>
  Under \<^verbatim>\<open>-r\<close>, a first token that does not fit an empty batch keeps the loop turning:
  \<^verbatim>\<open>continue\<close> on line 165 comes before the test of line 169, \<^verbatim>\<open>data\<close> stays as
  it is, and no number of turns ends the run.
\<close>

lemma loop_stuck_running:
  assumes "flag_r cfg" and "toks (delim tt) l \<noteq> []"
    and "rej_b (reset args tt) (hd (toks (delim tt) l))"
  shows "xargs_loop fuel cfg w args tt k (Some l) dn dl inp = (Running, [])"
  using assms(2,3)
proof (induction fuel arbitrary: tt l dn dl inp)
  case 0
  show ?case by simp
next
  case (Suc fuel)
  define t0 where "t0 = reset args tt"
  define R where "R = pending (delim tt) (Some l) inp"
  have d0: "delim t0 = delim tt" by (simp add: t0_def reset_def)
  obtain tt1 data1 dl1 inp1 dn1 where
    rd: "read_lines (reset args tt) (Some l) dl inp dn = (tt1, data1, dl1, inp1, dn1)"
    by (rule read_lines_cases)
  from read_lines_spec [OF rd]
  have ok: "read_ok t0 R dn tt1 data1 inp1 dn1"
    by (simp add: t0_def R_def reset_def)
  have Rne: "R \<noteq> []" and hdR: "hd R = hd (toks (delim tt) l)"
    using Suc.prems(1) by (simp_all add: R_def pending_def)
  then have a0: "accept t0 R = []"
    using Suc.prems(2) by (simp add: accept_hd_rej t0_def)
  have e0: "entries t0 = 0" by (simp add: t0_def reset_def)
  from ok have so: "same_opts t0 tt1" and en: "entries tt1 = 0"
    unfolding read_ok_def Let_def a0 by (simp_all add: e0)
  from so have rs: "reset args tt1 = reset args tt" and d1: "delim tt1 = delim tt"
    unfolding t0_def by (simp_all add: same_opts_reset_self same_opts_def reset_def)
  have rb: "rej_b t0 (R ! 0)"
    using Rne hdR Suc.prems(2) by (simp add: hd_conv_nth t0_def)
  have nn: "\<not> rej_n t0" unfolding t0_def by (rule rej_n_reset)
  from ok Rne rb nn obtain l' where
    l': "data1 = Some l'" "toks (delim t0) l' \<noteq> []" "pending (delim t0) (Some l') inp1 = R"
    unfolding read_ok_def Let_def a0 by auto
  from l'(2,3) have "hd (toks (delim t0) l') = hd R"
    by (auto simp: pending_def)
  with l'(2) Suc.prems(2) hdR
  have p: "toks (delim tt1) l' \<noteq> []" "rej_b (reset args tt1) (hd (toks (delim tt1) l'))"
    by (simp_all add: d0 d1 rs)
  have "xargs_loop (Suc fuel) cfg w args tt k (Some l) dn dl inp
          = xargs_loop fuel cfg w args tt1 k data1 dn1 dl1 inp1"
    using rd en assms(1) by (intro loop_skip) simp_all
  also have "\<dots> = (Running, [])"
    unfolding l'(1) using p by (rule Suc.IH)
  finally show ?case .
qed

lemma skip_empty_hides_long_token:
  assumes "flag_r cfg" and "input_tokens cfg inp = t # rest" and "\<not> fits cfg t"
  shows "xargs_main fuel cfg w inp = (Running, [])"
proof (cases fuel)
  case 0
  then show ?thesis by (simp add: xargs_main_start)
next
  case (Suc f)
  let ?tt = "(limits cfg)\<lparr>bytes := 0\<rparr>"
  let ?R = "t # rest"
  obtain tt1 data1 dl1 inp1 dn1 where
    rd: "read_lines (reset (command cfg) ?tt) None [] inp 0 = (tt1, data1, dl1, inp1, dn1)"
    by (rule read_lines_cases)
  have p: "pending (delim (limits cfg)) None inp = ?R"
    using assms(2) by (simp add: input_tokens_def pending_None)
  have rb: "rej_b (limits cfg) t"
    using assms(3) by (simp add: fits_iff)
  then have a0: "accept (limits cfg) ?R = []" by simp
  note far = fill_after_read [OF rd]
  have ok: "read_ok (limits cfg) ?R 0 tt1 data1 inp1 dn1"
    using far(4) by (simp add: reset_start p del: limits_fields)
  have en: "entries tt1 = 0"
    using far(2) by (simp add: reset_start p a0 del: limits_fields accept.simps)
  from ok have so: "same_opts (limits cfg) tt1"
    by (simp add: read_ok_def Let_def)
  then have rs: "reset (command cfg) tt1 = limits cfg" and d1: "delim tt1 = delim (limits cfg)"
    using same_opts_reset_self [of "command cfg" ?tt tt1]
    by (simp_all add: reset_start same_opts_def del: limits_fields)
  from ok rb obtain l where
    l: "data1 = Some l" "toks (delim (limits cfg)) l \<noteq> []"
       "pending (delim (limits cfg)) (Some l) inp1 = ?R"
    unfolding read_ok_def Let_def a0 by auto
  from l(2,3) have "hd (toks (delim (limits cfg)) l) = t"
    by (cases "toks (delim (limits cfg)) l") (auto simp: pending_def)
  with l(2) rb
  have q: "toks (delim tt1) l \<noteq> []" "rej_b (reset (command cfg) tt1) (hd (toks (delim tt1) l))"
    by (simp_all add: d1 rs del: limits_fields)
  have "xargs_main fuel cfg w inp
          = xargs_loop f cfg w (command cfg) tt1 0 data1 dn1 dl1 inp1"
    unfolding xargs_main_start Suc using rd en assms(1) by (intro loop_skip) simp_all
  also have "\<dots> = (Running, [])"
    unfolding l(1) using assms(1) q by (rule loop_stuck_running)
  finally show ?thesis .
qed

subsection \<open>The status of the child\<close>

text \<open>
  The status of the child is recorded in the trace and read nowhere else: changing the
  child changes neither how the run ends nor the argument vectors it builds.
\<close>

lemma loop_ignores_child:
  "fst (xargs_loop f cfg (w\<lparr>child := c\<rparr>) args tt k data dn dl inp)
     = fst (xargs_loop f cfg w args tt k data dn dl inp)
   \<and> map argv_of (snd (xargs_loop f cfg (w\<lparr>child := c\<rparr>) args tt k data dn dl inp))
     = map argv_of (snd (xargs_loop f cfg w args tt k data dn dl inp))"
proof (induction f arbitrary: tt k data dn dl inp)
  case 0
  show ?case by simp
next
  case (Suc f)
  show ?case
  proof (cases "data = None \<and> dn \<noteq> 0")
    case True
    then show ?thesis by simp
  next
    case False
    obtain tt1 data1 dl1 inp1 dn1 where
      rd: "read_lines (tt\<lparr>entries := 0, bytes := prefix_bytes args\<rparr>) data dl inp dn
             = (tt1, data1, dl1, inp1, dn1)"
      by (rule read_lines_cases)
    obtain tt2 out where
      fl: "fill (length args) dl1 (tt1\<lparr>entries := 0, bytes := prefix_bytes args\<rparr>)
             \<lparr>slots = map Some args @ replicate (entries tt1 + 1) None, oob = False\<rparr>
           = (tt2, out)"
      by (cases "fill (length args) dl1 (tt1\<lparr>entries := 0, bytes := prefix_bytes args\<rparr>)
             \<lparr>slots = map Some args @ replicate (entries tt1 + 1) None, oob = False\<rparr>") blast
    note u = loop_unfold [OF False rd fl]
    show ?thesis
      using Suc.IH [of tt1 k data1 dn1 dl1 inp1] Suc.IH [of tt2 "k + 1" data1 dn1 "[]" inp1]
      by (simp only: u) (auto split: option.splits)
  qed
qed

lemma run_ignores_child:
  "fst (xargs_main f cfg (w\<lparr>child := c\<rparr>) inp) = fst (xargs_main f cfg w inp)
   \<and> map argv_of (snd (xargs_main f cfg (w\<lparr>child := c\<rparr>) inp))
     = map argv_of (snd (xargs_main f cfg w inp))"
  unfolding xargs_main_start by (rule loop_ignores_child)

section \<open>The claims\<close>

text \<open>
  The statements of this section speak of the code through \<open>xargs_main\<close>,
  \<open>handle_entries\<close>, \<open>read_lines\<close>, \<open>fill\<close>, \<open>decode_status\<close> and
  \<open>prefix_bytes\<close>, and of its input and batches through the definitions of the
  subsection on the words of the claims. In a run, \<open>fuel\<close> is the number of turns
  of the loop \<^verbatim>\<open>while (data || !done)\<close> allowed to it.
\<close>

subsection \<open>C1: exit status 255\<close>

text \<open>
  C1. The claim: when the child of a batch exits with status 255, no later batch is
  run, even if input remains. The help text of the source says the same (line 23).
  The code stores the decoded status in the local variable \<^verbatim>\<open>status\<close> (line 199)
  and reads it nowhere; the loop test (line 133) looks at \<^verbatim>\<open>data\<close> and \<^verbatim>\<open>done\<close>
  alone. At \<^verbatim>\<open>xargs -n 1 cmd\<close> with the input \<^verbatim>\<open>a b\<close> and a command that always
  exits with 255: the first turn counts \<^verbatim>\<open>a\<close>, meets the entry ceiling before
  \<^verbatim>\<open>b\<close> (line 69) and runs \<^verbatim>\<open>cmd a\<close>; the second turn takes up \<^verbatim>\<open>b\<close>, reaches
  the end of input and runs \<^verbatim>\<open>cmd b\<close>, after a child that exited with 255. (For
  every input the child changes nothing but the recorded status: lemma
  \<open>run_ignores_child\<close>.)
\<close>

theorem exit_255_does_not_stop:
  "xargs_main 3
     \<lparr>opt_s = 0, opt_n = 1, opt_E = None, flag_0 = False, flag_r = False, flag_p = False,
      optargs = [''cmd''], posix_max_bytes = 131072, sizeof_ptr = 8\<rparr>
     \<lparr>child = (\<lambda>k a. Exited 255), yesno = (\<lambda>k. True)\<rparr>
     ''a b''
   = (Finished, [Ran [''cmd'', ''a''] 255, Ran [''cmd'', ''b''] 255])"
  by code_simp

subsection \<open>C2: decoding the status\<close>

text \<open>
  C2. The claim: the decoded disposition of a batch is the child's exit code when the
  child exits normally, and 128 plus the signal number when a signal ends it. The code
  (line 199) keeps the exit code, but adds 127 to the signal number: a child killed
  by signal 9 is decoded as 136, not 137.
\<close>

theorem decode_status_values:
  "decode_status (Exited c) = int c \<and> decode_status (Signaled g) = int g + 127
     \<and> decode_status (Signaled 9) = 136"
  by (simp add: decode_status_def)

subsection \<open>C3: the words of the input reach the command\<close>

text \<open>
  C3, as the claim states it, fails on two kinds of input, with no option set.

  A word that the byte budget of an empty batch cannot hold: without \<^verbatim>\<open>-s\<close>, line 118
  sets \<^verbatim>\<open>TT.s\<close> to the host ceiling, so a byte budget is in force all the same. The
  example takes a host with a ceiling of 8 bytes to stay short (\<^verbatim>\<open>ARG_MAX\<close> 4096,
  the least POSIX allows, and an environment of 2040 bytes; a longer word does the same
  under any ceiling): \<^verbatim>\<open>TT.bytes\<close> starts at 4 for \<^verbatim>\<open>echo\<close>, the fourth byte of
  \<^verbatim>\<open>aaaa\<close> brings it to 8, line 79 returns the word as left over, no entry is
  counted and line 169 ends the run before any batch.

  A NUL byte, at the usual ceiling: \<^verbatim>\<open>getdelim\<close> reads the line \<^verbatim>\<open>a\0b c\n\<close>, and
  the loop \<^verbatim>\<open>while ( *s)\<close> (line 61) ends at the NUL, so the run is \<^verbatim>\<open>echo a\<close> and the
  word \<^verbatim>\<open>c\<close> reaches no batch.
\<close>

theorem long_word_or_nul_counterexample:
  "xargs_main 1 (ex_cfg\<lparr>posix_max_bytes := 8\<rparr>) ex_world ''aaaa\<newline>''
     = (Fatal ''argument too long'', [])
   \<and> ws_words ''aaaa\<newline>'' = [''aaaa'']
   \<and> xargs_main 2 ex_cfg ex_world [CHR ''a'', CHR 0x00, CHR ''b'', CHR '' '', CHR ''c'', CHR 0x0A]
     = (Finished, [Ran [''echo'', ''a''] 0])
   \<and> ws_words [CHR ''a'', CHR 0x00, CHR ''b'', CHR '' '', CHR ''c'', CHR 0x0A]
     = [[CHR ''a'', CHR 0x00, CHR ''b''], ''c'']"
  by code_simp

text \<open>
  C3, amended. In whitespace mode with no stop string, for an input without NUL bytes
  in which every word fits the byte budget in force together with the command (the
  budget is the host ceiling or a smaller \<^verbatim>\<open>-s\<close>; a word of length \<open>l\<close> counts
  \<open>l + 1\<close>), the run ends normally, every batch is run (where \<^verbatim>\<open>-p\<close> asks, the answer
  being yes), and the tokens of the batches, one after the other, are the
  whitespace-separated words of the input in their order. The entry ceiling and
  \<^verbatim>\<open>-s\<close> are free: the amended claim holds with them as without. The run ends: from
  some number of turns on, every number of turns allowed gives the same result.
\<close>

theorem whitespace_words_preserved:
  assumes "\<not> flag_0 cfg" and "opt_E cfg = None" and "CHR 0x00 \<notin> set inp"
    and "\<forall>x \<in> set (ws_words inp).
           byte_limit cfg = 0 \<or> prefix_bytes (command cfg) + int (length x) + 1 < byte_limit cfg"
    and "flag_p cfg \<longrightarrow> (\<forall>k. yesno w k)"
  shows "\<exists>fuel evs. (\<forall>m. xargs_main (fuel + m) cfg w inp = (Finished, evs))
           \<and> concat (map (batch_tokens cfg) evs) = ws_words inp
           \<and> (\<forall>ev \<in> set evs. ran ev)"
proof -
  have R: "input_tokens cfg inp = ws_words inp"
    using assms(1,3) by (simp add: input_tokens_def stream_toks_ws)
  have fit: "\<forall>x \<in> set (input_tokens cfg inp). \<not> rej_b (limits cfg) x"
    using assms(1,4) unfolding R by (auto simp: rej_b_def cost_def)
  have noE: "flag_0 cfg \<or> opt_E cfg = None" using assms(2) by simp
  from main_live [OF noE, of inp w] fit
  obtain fuel oc tr where
    run: "xargs_main fuel cfg w inp
            = (oc, events_of cfg w (command cfg) 0 (chunks (limits cfg) (ws_words inp) @ tr))"
    and ok: "run_ok cfg (limits cfg) (ws_words inp) oc tr"
    unfolding R by blast
  have "concat (chunks (limits cfg) (ws_words inp))
          = takeWhile (\<lambda>x. \<not> rej_b (limits cfg) x) (ws_words inp)"
    by (rule chunks_takeWhile [OF rej_n_limits noE_limits [OF noE]])
  also have "\<dots> = ws_words inp"
    using fit unfolding R by (simp add: takeWhile_eq_all_conv)
  finally have cc: "concat (chunks (limits cfg) (ws_words inp)) = ws_words inp" .
  with ok have oc: "oc = Finished" and tr: "tr = [] \<or> tr = [[]]"
    by (auto simp: run_ok_def)
  let ?evs = "events_of cfg w (command cfg) 0 (chunks (limits cfg) (ws_words inp) @ tr)"
  have "concat (map (batch_tokens cfg) ?evs) = ws_words inp"
    using tr cc by (auto simp: batch_tokens_events)
  moreover have "\<forall>ev \<in> set ?evs. ran ev"
    using events_ran [OF assms(5)] by blast
  moreover have "\<forall>m. xargs_main (fuel + m) cfg w inp = (Finished, ?evs)"
    using main_fuel [OF run] oc by simp
  ultimately show ?thesis by blast
qed

text \<open>
  The amended claim at the input \<^verbatim>\<open>a b\nc\<close> with no option set.
\<close>

theorem whitespace_words_preserved_witness:
  "\<exists>fuel evs. xargs_main fuel ex_cfg ex_world ''a b\<newline>c'' = (Finished, evs)
      \<and> concat (map (batch_tokens ex_cfg) evs) = [''a'', ''b'', ''c'']"
proof -
  have w: "ws_words ''a b\<newline>c'' = [''a'', ''b'', ''c'']" by code_simp
  have 1: "\<not> flag_0 ex_cfg" and 2: "opt_E ex_cfg = None" by simp_all
  have 3: "CHR 0x00 \<notin> set ''a b\<newline>c''" by simp
  have 4: "\<forall>x \<in> set (ws_words ''a b\<newline>c'').
             byte_limit ex_cfg = 0
             \<or> prefix_bytes (command ex_cfg) + int (length x) + 1 < byte_limit ex_cfg"
    unfolding w by (simp add: byte_limit_def)
  have 5: "flag_p ex_cfg \<longrightarrow> (\<forall>k. yesno ex_world k)" by simp
  from whitespace_words_preserved [OF 1 2 3 4 5]
  obtain fuel evs where "\<forall>m. xargs_main (fuel + m) ex_cfg ex_world ''a b\<newline>c'' = (Finished, evs)"
    and "concat (map (batch_tokens ex_cfg) evs) = [''a'', ''b'', ''c'']"
    unfolding w by blast
  from this(1) [rule_format, of 0] this(2) show ?thesis
    by auto
qed

subsection \<open>C4: a token too long for the byte budget\<close>




subsection \<open>C5: the \<^verbatim>\<open>-0\<close> branch rejecting a line\<close>




subsection \<open>C6: batches of exactly N tokens\<close>




subsection \<open>C7: the bytes of a batch stay below the budget\<close>



subsection \<open>C8: the stop string\<close>

text \<open>
  C8. For every input whose tokens in whitespace mode are \<^verbatim>\<open>a b END c d\<close>, with the
  stop string \<^verbatim>\<open>END\<close> and nothing else that ends a batch earlier (no entry ceiling
  below 3, a byte budget that holds the command and the 8 bytes counted up to the end
  of \<^verbatim>\<open>END\<close>, a yes where \<^verbatim>\<open>-p\<close> asks): whatever number of turns of at least 2 is
  allowed, the run is one batch, the command with \<^verbatim>\<open>a\<close> and \<^verbatim>\<open>b\<close>, and then it
  ends. So \<^verbatim>\<open>END\<close>, \<^verbatim>\<open>c\<close> and \<^verbatim>\<open>d\<close> reach no argument vector.
\<close>

theorem stop_string_example:
  assumes "opt_E cfg = Some ''END''" and "\<not> flag_0 cfg"
    and "input_tokens cfg inp = [''a'', ''b'', ''END'', ''c'', ''d'']"
    and "opt_n cfg = 0 \<or> 3 \<le> opt_n cfg"
    and "byte_limit cfg = 0 \<or> prefix_bytes (command cfg) + 8 < byte_limit cfg"
    and "flag_p cfg \<longrightarrow> yesno w 0"
  shows "xargs_main (Suc (Suc fuel)) cfg w inp
         = (Finished, [Ran (command cfg @ [''a'', ''b''])
                           (decode_status (child w 0 (command cfg @ [''a'', ''b''])))])"
proof -
  note limits_fields [simp del]
  let ?tt = "(limits cfg)\<lparr>bytes := 0\<rparr>"
  let ?R = "[''a'', ''b'', ''END'', ''c'', ''d'']"
  have d: "delim (limits cfg) = CHR 0x0A" using assms(2) by (simp add: limits_def)
  have p: "pending (delim (limits cfg)) None inp = ?R"
    using assms(3) by (simp add: input_tokens_def pending_None)
  have acc: "accept (limits cfg) ?R = [''a'', ''b'']"
    using assms(1,2,4,5)
    by (auto simp: limits_def rej_n_def rej_b_def rej_E_def cost_def step_def)
  have tta: "adv (limits cfg) [''a'', ''b'']
             = (limits cfg)\<lparr>entries := 2, bytes := prefix_bytes (command cfg) + 4\<rparr>"
    using assms(2) by (simp add: step_def limits_def cost_def)
  obtain tt1 data1 dl1 inp1 dn1 where
    rd: "read_lines (reset (command cfg) ?tt) None [] inp 0 = (tt1, data1, dl1, inp1, dn1)"
    by (rule read_lines_cases)
  note far = fill_after_read [OF rd]
  have "read_ok (limits cfg) ?R 0 tt1 data1 inp1 dn1"
    using far(4) by (simp add: reset_start p)
  moreover have "\<not> rej_n (adv (limits cfg) [''a'', ''b''])"
    using assms(4) unfolding tta by (auto simp: rej_n_def limits_def)
  moreover have "\<not> rej_b (adv (limits cfg) [''a'', ''b'']) ''END''"
    using assms(2,5) unfolding tta by (auto simp: rej_b_def limits_def cost_def)
  ultimately have "data1 = None \<and> dn1 = Suc 0"
    unfolding read_ok_def Let_def acc by auto
  moreover have "entries tt1 = 2"
    using far(2) by (simp add: reset_start p acc del: accept.simps)
  ultimately have "xargs_main (Suc (Suc fuel)) cfg w inp
          = (Finished, [event cfg w 0 (command cfg @ accept (reset (command cfg) ?tt)
                                          (pending (delim ?tt) None inp))])"
    unfolding xargs_main_start using rd by (intro loop_last_batch) auto
  then show ?thesis
    using assms(6) by (simp add: p reset_start acc event_def del: accept.simps)
qed

text \<open>
  The claim at the input \<^verbatim>\<open>a b\nEND c d\n\<close>.
\<close>

theorem stop_string_example_witness:
  "xargs_main 2 (ex_cfg\<lparr>opt_E := Some ''END''\<rparr>) ex_world ''a b\<newline>END c d\<newline>''
     = (Finished, [Ran [''echo'', ''a'', ''b''] 0])"
proof -
  let ?C = "ex_cfg\<lparr>opt_E := Some ''END''\<rparr>"
  have t: "input_tokens ?C ''a b\<newline>END c d\<newline>'' = [''a'', ''b'', ''END'', ''c'', ''d'']"
    by code_simp
  have 1: "opt_E ?C = Some ''END''" and 2: "\<not> flag_0 ?C"
    and 4: "opt_n ?C = 0 \<or> 3 \<le> opt_n ?C"
    and 5: "byte_limit ?C = 0 \<or> prefix_bytes (command ?C) + 8 < byte_limit ?C"
    and 6: "flag_p ?C \<longrightarrow> yesno ex_world 0"
    by (simp_all add: byte_limit_def)
  from stop_string_example [OF 1 2 t 4 5 6, of 0] show ?thesis
    by (simp add: ex_world_def decode_status_def numeral_2_eq_2)
qed

subsection \<open>C9: input without tokens\<close>

text \<open>
  C9. Without \<^verbatim>\<open>-r\<close>, when standard input ends before it yields a token, in either
  delimiter mode and whatever number of turns of at least 2 is allowed, exactly one
  batch is run (where \<^verbatim>\<open>-p\<close> asks, the answer being yes), and its argument vector is
  the command alone.
\<close>

theorem empty_input_runs_once:
  assumes "\<not> flag_r cfg" and "input_tokens cfg inp = []" and "flag_p cfg \<longrightarrow> yesno w 0"
  shows "xargs_main (Suc (Suc fuel)) cfg w inp
         = (Finished, [Ran (command cfg) (decode_status (child w 0 (command cfg)))])"
proof -
  note limits_fields [simp del]
  let ?tt = "(limits cfg)\<lparr>bytes := 0\<rparr>"
  have p: "pending (delim (limits cfg)) None inp = []"
    using assms(2) by (simp add: input_tokens_def pending_None)
  then have "pending (delim ?tt) None inp = []" by simp
  from read_lines_no_tokens [OF this, of "command cfg"]
  obtain tt1 dl1 inp1 where
    rd: "read_lines (reset (command cfg) ?tt) None [] inp 0 = (tt1, None, dl1, inp1, Suc 0)"
    by blast
  have "xargs_main (Suc (Suc fuel)) cfg w inp
          = (Finished, [event cfg w 0 (command cfg @ accept (reset (command cfg) ?tt)
                                          (pending (delim ?tt) None inp))])"
    unfolding xargs_main_start using rd assms(1) by (intro loop_last_batch) auto
  then show ?thesis
    using assms(3) by (simp add: p reset_start event_def)
qed

text \<open>
  The claim at an input of blank lines.
\<close>

theorem empty_input_runs_once_witness:
  "xargs_main 2 ex_cfg ex_world ''\<newline>  \<newline>'' = (Finished, [Ran [''echo''] 0])"
proof -
  have t: "input_tokens ex_cfg ''\<newline>  \<newline>'' = []" by code_simp
  have 1: "\<not> flag_r ex_cfg" and 3: "flag_p ex_cfg \<longrightarrow> yesno ex_world 0" by simp_all
  from empty_input_runs_once [OF 1 t 3, of 0] show ?thesis
    by (simp add: ex_world_def decode_status_def numeral_2_eq_2)
qed

subsection \<open>C10: the filling pass repeats the counting pass\<close>

text \<open>
  C10. When the counting pass (lines 136-163) over the pending lines of a batch has
  ended, the filling pass (lines 174-178) over the same lines, started from the same
  counters, ends with the same counters; the array of prefix length + counted entries
  + 1 slots (line 170) then holds the command, the tokens counted, which are the first
  of the tokens that were to come, and \<^verbatim>\<open>NULL\<close> in its last slot, and no write fell
  outside it. (The list of pending lines is empty when a batch starts, except after
  \<^verbatim>\<open>continue\<close> under \<^verbatim>\<open>-r\<close>; from there no filling pass is reached, and no run
  ends in \<open>Undefined\<close>: lemmas \<open>loop_safe\<close> and \<open>run_never_undefined\<close>.)
\<close>

theorem fill_pass_matches_count:
  assumes "read_lines (tt\<lparr>entries := 0, bytes := prefix_bytes args\<rparr>) data [] inp dn
           = (tt1, data1, dl1, inp1, dn1)"
  shows "fill (length args) dl1 (tt1\<lparr>entries := 0, bytes := prefix_bytes args\<rparr>)
              \<lparr>slots = map Some args @ replicate (entries tt1 + 1) None, oob = False\<rparr>
           = (tt1, \<lparr>slots = map Some args
                             @ map Some (take (entries tt1) (pending (delim tt) data inp))
                             @ [None],
                     oob = False\<rparr>)
         \<and> entries tt1 \<le> length (pending (delim tt) data inp)"
proof -
  from assms have rd: "read_lines (reset args tt) data [] inp dn = (tt1, data1, dl1, inp1, dn1)"
    by (simp add: reset_def)
  let ?R = "pending (delim tt) data inp"
  let ?acc = "accept (reset args tt) ?R"
  from fill_after_read(1,2) [OF rd]
  have f: "fill (length args) dl1 (reset args tt1)
           \<lparr>slots = map Some args @ replicate (entries tt1 + 1) None, oob = False\<rparr>
         = (tt1, \<lparr>slots = map Some args @ map Some ?acc @ [None], oob = False\<rparr>)"
    and e: "entries tt1 = length ?acc"
    by simp_all
  have "take (entries tt1) ?R = ?acc"
    unfolding e by (rule accept_prefix)
  moreover have "entries tt1 \<le> length ?R"
    unfolding e by (rule length_accept)
  ultimately show ?thesis
    using f by (simp add: reset_def)
qed

text \<open>
  The claim at \<^verbatim>\<open>-n 2\<close> and the lines \<^verbatim>\<open>a\<close> and \<^verbatim>\<open>b c\<close>: the counting pass
  counts \<^verbatim>\<open>a\<close> and \<^verbatim>\<open>b\<close> and leaves \<^verbatim>\<open>c\<close> over; the filling pass writes them
  behind \<^verbatim>\<open>echo\<close>.
\<close>

theorem fill_pass_matches_count_witness:
  "fill 1 [''a\<newline>'', ''b c\<newline>'']
        \<lparr>s = 100, n = 2, E = None, entries = 0, bytes = 4, delim = CHR 0x0A, ptr = 8\<rparr>
        \<lparr>slots = [Some ''echo'', None, None, None], oob = False\<rparr>
   = (\<lparr>s = 100, n = 2, E = None, entries = 2, bytes = 8, delim = CHR 0x0A, ptr = 8\<rparr>,
      \<lparr>slots = [Some ''echo'', Some ''a'', Some ''b'', None], oob = False\<rparr>)"
proof -
  let ?tt = "\<lparr>s = 100, n = 2, E = None, entries = 7, bytes = 9, delim = CHR 0x0A, ptr = 8\<rparr>"
  have rd: "read_lines (?tt\<lparr>entries := 0, bytes := prefix_bytes [''echo'']\<rparr>) None []
              ''a\<newline>b c\<newline>'' 0
            = (\<lparr>s = 100, n = 2, E = None, entries = 2, bytes = 8, delim = CHR 0x0A, ptr = 8\<rparr>,
               Some ''c\<newline>'', [''a\<newline>'', ''b c\<newline>''], [], 0)"
    by code_simp
  have p: "pending (delim ?tt) None ''a\<newline>b c\<newline>'' = [''a'', ''b'', ''c'']"
    by code_simp
  from fill_pass_matches_count [OF rd] show ?thesis
    unfolding p by (simp add: prefix_bytes_def numeral_3_eq_3)
qed

end
